theory Spec2Isabelle
  imports Complex_Main "HOL-Library.Word"
begin

unbundle bit_operations_syntax

section \<open>Machine types of math/myriotamath.h\<close>

text \<open>
  \<^verbatim>\<open>unsigned int\<close> is a 32-bit word, \<^verbatim>\<open>uint64_t\<close> and \<^verbatim>\<open>int64_t\<close> are 64-bit words;
  an \<^verbatim>\<open>int64_t\<close> is read through \<open>sint\<close> (two's complement), a \<^verbatim>\<open>uint64_t\<close> through
  \<open>unat\<close>. The conversion of a \<^verbatim>\<open>uint64_t\<close> to \<^verbatim>\<open>int64_t\<close> keeps the bits.
\<close>

type_synonym unsigned_int = "32 word"
type_synonym uint64_t = "64 word"
type_synonym int64_t = "64 word"

section \<open>myriota\_greater\_power\_of\_two\<close>

text \<open>
  Modelled from the spec: the body of \<^verbatim>\<open>myriota_greater_power_of_two\<close> is not part of the
  sources, only its declaration \<^verbatim>\<open>unsigned int myriota_greater_power_of_two(unsigned int x)\<close>
  with the comment "Returns smallest power of 2 greater than or equal to this integer".
  The model searches the powers \<open>1, 2, 4, ...\<close> upwards for the first one that is not
  below \<open>x\<close> and returns it as an \<^verbatim>\<open>unsigned int\<close>, that is modulo \<open>2 ^ 32\<close>.
\<close>

fun pow2_from :: "nat \<Rightarrow> nat \<Rightarrow> nat \<Rightarrow> nat" where
  "pow2_from 0 p x = p"
| "pow2_from (Suc f) p x = (if x \<le> p then p else pow2_from f (2 * p) x)"

definition myriota_greater_power_of_two :: "unsigned_int \<Rightarrow> unsigned_int" where
  "myriota_greater_power_of_two x = word_of_nat (pow2_from 32 1 (unat x))"

text \<open>What "the smallest power of two that is at least \<open>m\<close>" means for a number \<open>r\<close>.\<close>

definition smallest_pow2_ge :: "nat \<Rightarrow> nat \<Rightarrow> bool" where
  "smallest_pow2_ge m r \<longleftrightarrow>
     (\<exists>k. r = 2 ^ k) \<and> m \<le> r \<and> (\<forall>k. m \<le> 2 ^ k \<longrightarrow> r \<le> 2 ^ k)"

section \<open>CircularBuffer\<close>

text \<open>
  \<^verbatim>\<open>template <typename T> class CircularBuffer\<close>: the fields \<^verbatim>\<open>size\<close>, \<^verbatim>\<open>mask\<close>,
  \<^verbatim>\<open>buf\<close> and \<^verbatim>\<open>N\<close>. (\<open>size\<close> and \<open>mask\<close> are constants of HOL, hence the suffix.)
\<close>

record 'a CircularBuffer =
  size_cb :: unsigned_int
  mask_cb :: unsigned_int
  buf :: "'a list"
  N :: uint64_t

text \<open>
  The constructor:
  \<^verbatim>\<open>size(myriota_greater_power_of_two(size + 1)), mask(this->size - 1),
  buf(this->size, init), N(0)\<close>. The addition and the subtraction are those of
  \<^verbatim>\<open>unsigned int\<close>.
\<close>

definition CircularBuffer :: "unsigned_int \<Rightarrow> 'a \<Rightarrow> 'a CircularBuffer" where
  "CircularBuffer sz init =
     (let s = myriota_greater_power_of_two (sz + 1)
      in \<lparr>size_cb = s, mask_cb = s - 1, buf = replicate (unat s) init, N = 0\<rparr>)"

text \<open>
  \<^verbatim>\<open>buf[N & mask] = elem; N++;\<close> The mask is converted to \<^verbatim>\<open>uint64_t\<close> for the
  conjunction. A slot outside the vector would be undefined behaviour in the source;
  the lemmas \<open>push_slot_less\<close> and \<open>slot_less\<close> below show that the slot is always
  inside.
\<close>

definition push :: "'a CircularBuffer \<Rightarrow> 'a \<Rightarrow> 'a CircularBuffer" where
  "push b elem =
     b\<lparr>buf := (buf b)[unat (N b AND ucast (mask_cb b)) := elem], N := N b + 1\<rparr>"

definition pushed :: "'a CircularBuffer \<Rightarrow> uint64_t" where
  "pushed b = N b"

text \<open>
  \<^verbatim>\<open>int64_t maxn() const { return N - 1; }\<close> and
  \<^verbatim>\<open>int64_t minn() const { return N - size; }\<close>: both subtractions are computed in
  \<^verbatim>\<open>uint64_t\<close> (\<^verbatim>\<open>size\<close> is converted) and wrap; the result is then read as
  \<^verbatim>\<open>int64_t\<close>.
\<close>

definition maxn :: "'a CircularBuffer \<Rightarrow> int64_t" where
  "maxn b = N b - 1"

definition minn :: "'a CircularBuffer \<Rightarrow> int64_t" where
  "minn b = N b - ucast (size_cb b)"

text \<open>
  \<^verbatim>\<open>operator()(const int64_t n)\<close>, the unchecked read \<^verbatim>\<open>buf[n & mask]\<close>. The mask is
  converted to \<^verbatim>\<open>int64_t\<close> (zero-extended), so the slot is never negative.
\<close>

definition slot :: "'a CircularBuffer \<Rightarrow> int64_t \<Rightarrow> nat" where
  "slot b n = unat (n AND ucast (mask_cb b))"

definition read_unchecked :: "'a CircularBuffer \<Rightarrow> int64_t \<Rightarrow> 'a" where
  "read_unchecked b n = buf b ! slot b n"

text \<open>\<^verbatim>\<open>std::to_string\<close> of an \<^verbatim>\<open>int64_t\<close>: decimal digits, with a minus sign.\<close>

fun digits :: "nat \<Rightarrow> string" where
  "digits n =
     (if n < 10 then [''0123456789'' ! n]
      else digits (n div 10) @ [''0123456789'' ! (n mod 10)])"

declare digits.simps [simp del]

definition to_string :: "int64_t \<Rightarrow> string" where
  "to_string n =
     (if sint n < 0 then CHR ''-'' # digits (nat (- sint n)) else digits (nat (sint n)))"

text \<open>The exception \<^verbatim>\<open>std::out_of_range\<close> with its message.\<close>

datatype error = out_of_range string

definition window_text :: "'a CircularBuffer \<Rightarrow> int64_t \<Rightarrow> string" where
  "window_text b n =
     to_string n @ '' outside ['' @ to_string (minn b) @ '', '' @ to_string (maxn b) @ '']''"

text \<open>
  \<^verbatim>\<open>at\<close> (\<open>at\<close> is a constant of HOL, hence the suffix): \<^verbatim>\<open>if (n >= minn() && n <= maxn()) return (*this)(n); throw std::out_of_range(...)\<close>.
  The comparisons are those of \<^verbatim>\<open>int64_t\<close>.
\<close>

definition at_cb :: "'a CircularBuffer \<Rightarrow> int64_t \<Rightarrow> error + 'a" where
  "at_cb b n =
     (if sint (minn b) \<le> sint n \<and> sint n \<le> sint (maxn b) then Inr (read_unchecked b n)
      else Inl (out_of_range (''circluar buffer at '' @ window_text b n)))"

text \<open>\<^verbatim>\<open>set\<close>: the same test, then \<^verbatim>\<open>buf[n & mask] = v\<close>.\<close>

definition set_cb :: "'a CircularBuffer \<Rightarrow> int64_t \<Rightarrow> 'a \<Rightarrow> error + 'a CircularBuffer" where
  "set_cb b n v =
     (if sint (minn b) \<le> sint n \<and> sint n \<le> sint (maxn b)
      then Inr (b\<lparr>buf := (buf b)[slot b n := v]\<rparr>)
      else Inl (out_of_range (''circluar buffer set '' @ window_text b n)))"

text \<open>The store after the values \<open>vs\<close> have been pushed, first to last.\<close>

definition push_all :: "'a CircularBuffer \<Rightarrow> 'a list \<Rightarrow> 'a CircularBuffer" where
  "push_all b vs = foldl push b vs"

text \<open>
  The states a store constructed with requested size \<open>sz\<close> and initial value \<open>init\<close>
  can reach through its mutating members \<^verbatim>\<open>push\<close> and \<^verbatim>\<open>set\<close>, with two history
  variables: \<open>m\<close> counts the calls of \<^verbatim>\<open>push\<close> (the field \<open>N\<close> holds it modulo
  \<open>2 ^ 64\<close>), and \<open>f i\<close> is the value written last at the index \<open>i\<close>, by the push
  number \<open>i\<close> or by a later successful \<^verbatim>\<open>set\<close>, and \<open>init\<close> where nothing was written.
\<close>

inductive reach :: "unsigned_int \<Rightarrow> 'a \<Rightarrow> nat \<Rightarrow> (int \<Rightarrow> 'a) \<Rightarrow> 'a CircularBuffer \<Rightarrow> bool"
  for sz :: unsigned_int and init :: 'a where
  reach_new: "reach sz init 0 (\<lambda>i. init) (CircularBuffer sz init)"
| reach_push: "reach sz init m f b \<Longrightarrow> reach sz init (Suc m) (f(int m := elem)) (push b elem)"
| reach_set: "reach sz init m f b \<Longrightarrow> set_cb b n v = Inr b' \<Longrightarrow>
    reach sz init m (f(sint n := v)) b'"

text \<open>
  The same states with another history variable: \<open>S\<close> is the set of the indices that a
  successful \<^verbatim>\<open>set\<close> has written.
\<close>

inductive reach_sets :: "unsigned_int \<Rightarrow> 'a \<Rightarrow> nat \<Rightarrow> int set \<Rightarrow> 'a CircularBuffer \<Rightarrow> bool"
  for sz :: unsigned_int and init :: 'a where
  sets_new: "reach_sets sz init 0 {} (CircularBuffer sz init)"
| sets_push: "reach_sets sz init m S b \<Longrightarrow> reach_sets sz init (Suc m) S (push b elem)"
| sets_set: "reach_sets sz init m S b \<Longrightarrow> set_cb b n v = Inr b' \<Longrightarrow>
    reach_sets sz init m (insert (sint n) S) b'"

text \<open>
  The shape of a store whose size is \<open>2 ^ k\<close>: the mask is the size minus one and the
  vector has as many elements as the size says.
\<close>

definition wf_cb :: "nat \<Rightarrow> 'a CircularBuffer \<Rightarrow> bool" where
  "wf_cb k b \<longleftrightarrow>
     k \<le> 31 \<and> size_cb b = 2 ^ k \<and> mask_cb b = 2 ^ k - 1 \<and> length (buf b) = 2 ^ k"

section \<open>myriota\_rational\<close>

text \<open>
  \<^verbatim>\<open>typedef struct { long long p; long long q; } myriota_rational;\<close> with the numerator
  \<open>p\<close> and the denominator \<open>q\<close>. A \<^verbatim>\<open>long long\<close> is a mathematical integer here: the
  functions that compute with the two members are not part of the sources, and the
  spec, from which they are modelled below, speaks of integers.
\<close>

record myriota_rational =
  p :: int
  q :: int

section \<open>double\<close>

text \<open>
  A \<^verbatim>\<open>double\<close> is an IEEE 754 binary64 number. A finite one is modelled as the real
  number it denotes (the sign of zero plays no part here); an infinity or a NaN is
  \<open>None\<close>. An operation computes the exact real result and rounds it to the nearest
  \<^verbatim>\<open>double\<close>, ties to the even significand (the default rounding mode).

  \<open>pow2 e\<close> is \<open>2\<close> to the power \<open>e\<close> for an integer \<open>e\<close>.
\<close>

definition pow2 :: "int \<Rightarrow> real" where
  "pow2 e = (if 0 \<le> e then 2 ^ nat e else 1 / 2 ^ nat (- e))"

text \<open>
  The binary exponent of \<open>y\<close>: the \<open>e\<close> with \<open>2 ^ e \<le> |y| < 2 ^ (e + 1)\<close>, but not below
  \<open>-1022\<close>, the exponent of the subnormal numbers (and of zero). It is found by halving
  or doubling \<open>|y|\<close>; the doubling stops after 1022 steps, the halving is not needed
  beyond the exponent 1024 of the overflow threshold.
\<close>

fun expo_up :: "nat \<Rightarrow> real \<Rightarrow> int \<Rightarrow> int" where
  "expo_up 0 y e = e"
| "expo_up (Suc f) y e = (if 2 \<le> y then expo_up f (y / 2) (e + 1) else e)"

fun expo_down :: "nat \<Rightarrow> real \<Rightarrow> int \<Rightarrow> int" where
  "expo_down 0 y e = e"
| "expo_down (Suc f) y e = (if y < 1 then expo_down f (2 * y) (e - 1) else e)"

definition exponent :: "real \<Rightarrow> int" where
  "exponent y = (if 1 \<le> \<bar>y\<bar> then expo_up 1100 \<bar>y\<bar> 0 else expo_down 1022 \<bar>y\<bar> 0)"

text \<open>Rounding to the nearest integer, a tie to the even one.\<close>

definition round_even :: "real \<Rightarrow> int" where
  "round_even z =
     (let f = \<lfloor>z\<rfloor>; r = z - of_int f
      in if r < 1 / 2 then f else if 1 / 2 < r then f + 1 else if even f then f else f + 1)"

text \<open>
  Rounding to 53 significant bits: the spacing of the \<^verbatim>\<open>double\<close>s around \<open>y\<close> is
  \<open>2 ^ (exponent y - 52)\<close>.
\<close>

definition rnd :: "real \<Rightarrow> real" where
  "rnd y = (let u = pow2 (exponent y - 52) in u * of_int (round_even (y / u)))"

text \<open>\<^verbatim>\<open>DBL_MAX\<close>, and the result of an operation whose exact value is \<open>y\<close>.\<close>

definition DBL_MAX :: real where
  "DBL_MAX = (2 ^ 53 - 1) * 2 ^ 971"

definition fl :: "real \<Rightarrow> real option" where
  "fl y = (if \<bar>rnd y\<bar> \<le> DBL_MAX then Some (rnd y) else None)"

text \<open>
  The conversion of an \<^verbatim>\<open>int64_t\<close> to \<^verbatim>\<open>double\<close> rounds; the conversion of a
  \<^verbatim>\<open>double\<close> to \<^verbatim>\<open>int64_t\<close> truncates towards zero and is undefined (\<open>None\<close>) outside
  the range of \<^verbatim>\<open>int64_t\<close>. The subtraction of two \<^verbatim>\<open>int64_t\<close> is undefined when it
  overflows.
\<close>

definition double_of_int64 :: "int \<Rightarrow> real" where
  "double_of_int64 i = rnd (of_int i)"

definition int64_of_double :: "real \<Rightarrow> int option" where
  "int64_of_double y =
     (let t = (if 0 \<le> y then \<lfloor>y\<rfloor> else \<lceil>y\<rceil>)
      in if - (2 ^ 63) \<le> t \<and> t < 2 ^ 63 then Some t else None)"

definition int64_sub :: "int \<Rightarrow> int \<Rightarrow> int option" where
  "int64_sub a b = (if - (2 ^ 63) \<le> a - b \<and> a - b < 2 ^ 63 then Some (a - b) else None)"

section \<open>Upsampler\<close>

text \<open>
  \<^verbatim>\<open>class Upsampler\<close> with its members \<^verbatim>\<open>W\<close>, \<^verbatim>\<open>r\<close>, \<^verbatim>\<open>gamma\<close>, \<^verbatim>\<open>gmin\<close>, \<^verbatim>\<open>gmax\<close>, \<^verbatim>\<open>a\<close>
  (the store) and \<^verbatim>\<open>g_buf\<close>; the samples are \<^verbatim>\<open>std::complex<double>\<close>. \<open>W\<close> and \<open>gamma\<close>
  are finite \<^verbatim>\<open>double\<close>s. (\<^verbatim>\<open>class Downsampler\<close> has the same members; nothing below is
  about it.)
\<close>

record Upsampler =
  W_up :: real
  r_up :: myriota_rational
  gamma_up :: real
  gmin_up :: int
  gmax_up :: int
  a_up :: "complex CircularBuffer"
  g_buf_up :: "real list"

text \<open>
  The body of the constructor \<^verbatim>\<open>Upsampler(double in_rate, double out_rate, double W)\<close>
  is not part of the sources. What it computes from the rates is taken as parameters:
  the values of the constant members, the size \<open>sz\<close> requested for the store and its
  initial sample. The store is built by the constructor of \<^verbatim>\<open>CircularBuffer\<close>, the only
  one that class has.
\<close>

definition Upsampler_new ::
  "real \<Rightarrow> myriota_rational \<Rightarrow> real \<Rightarrow> int \<Rightarrow> int \<Rightarrow> unsigned_int \<Rightarrow> complex \<Rightarrow> real list
     \<Rightarrow> Upsampler" where
  "Upsampler_new W r gamma gmin gmax sz init g_buf =
     \<lparr>W_up = W, r_up = r, gamma_up = gamma, gmin_up = gmin, gmax_up = gmax,
      a_up = CircularBuffer sz init, g_buf_up = g_buf\<rparr>"

text \<open>\<^verbatim>\<open>void push(complex x) { a.push(x); }\<close> and \<^verbatim>\<open>pushed() { return a.pushed(); }\<close>.\<close>

definition Upsampler_push :: "Upsampler \<Rightarrow> complex \<Rightarrow> Upsampler" where
  "Upsampler_push u x = u\<lparr>a_up := push (a_up u) x\<rparr>"

definition Upsampler_pushed :: "Upsampler \<Rightarrow> uint64_t" where
  "Upsampler_pushed u = pushed (a_up u)"

text \<open>
  \<^verbatim>\<open>int64_t minn() const { return ceil(gamma * (a.maxn() - a.size + W)); }\<close>:
  \<^verbatim>\<open>a.maxn() - a.size\<close> is computed in \<^verbatim>\<open>int64_t\<close> (\<^verbatim>\<open>size\<close> is converted), the
  difference is converted to \<^verbatim>\<open>double\<close>, \<open>W\<close> is added and the sum is multiplied by
  \<open>gamma\<close>, each in \<^verbatim>\<open>double\<close>; \<^verbatim>\<open>ceil\<close> is exact, and its value is converted to
  \<^verbatim>\<open>int64_t\<close>.
\<close>

definition Upsampler_minn :: "Upsampler \<Rightarrow> int option" where
  "Upsampler_minn u =
     Option.bind (int64_sub (sint (maxn (a_up u))) (int (unat (size_cb (a_up u))))) (\<lambda>t.
     Option.bind (fl (double_of_int64 t + W_up u)) (\<lambda>s.
     Option.bind (fl (gamma_up u * s)) (\<lambda>y.
     int64_of_double (of_int \<lceil>y\<rceil>))))"

text \<open>
  \<^verbatim>\<open>int64_t maxn() const { return floor(gamma * (a.maxn() - 1 - W)); }\<close>, in the same
  way.
\<close>

definition Upsampler_maxn :: "Upsampler \<Rightarrow> int option" where
  "Upsampler_maxn u =
     Option.bind (int64_sub (sint (maxn (a_up u))) 1) (\<lambda>t.
     Option.bind (fl (double_of_int64 t - W_up u)) (\<lambda>s.
     Option.bind (fl (gamma_up u * s)) (\<lambda>y.
     int64_of_double (of_int \<lfloor>y\<rfloor>))))"

text \<open>The Upsampler after the samples \<open>xs\<close> have been pushed, first to last.\<close>

definition Upsampler_push_all :: "Upsampler \<Rightarrow> complex list \<Rightarrow> Upsampler" where
  "Upsampler_push_all u xs = foldl Upsampler_push u xs"

section \<open>Rational approximation\<close>

text \<open>\<^verbatim>\<open>#define pi 3.14159265358979323846\<close> (\<open>pi\<close> is a constant of HOL, hence the suffix).\<close>

definition pi_macro :: real where
  "pi_macro = 3.14159265358979323846"

text \<open>
  Modelled from the spec: the bodies of \<^verbatim>\<open>gcd\<close>, \<^verbatim>\<open>make_myriota_rational\<close>,
  \<^verbatim>\<open>myriota_rational_sum\<close>, \<^verbatim>\<open>myriota_continued_fraction\<close>,
  \<^verbatim>\<open>myriota_best_approximations\<close> and \<^verbatim>\<open>myriota_rational_approximation\<close> are not part of
  the sources, only their declarations and comments in math/myriotamath.h. The
  definitions below follow the spec: a Rational is an integer pair "always stored in
  lowest terms", with "denominator > 0", and "reduction enforced at construction";
  the approximations are the continued-fraction convergents of a real value. A
  \<^verbatim>\<open>long long\<close> is a mathematical integer here and a \<^verbatim>\<open>double\<close> a real number, as the
  spec speaks of integers and real values; \<^verbatim>\<open>gcd\<close> is the greatest common divisor of HOL.

  \<^verbatim>\<open>make_myriota_rational(a, b)\<close>: "construct rational number equivalent to a/b.
  Numerator and denominator of resulting rational will always be relatively prime."
\<close>

definition make_myriota_rational :: "int \<Rightarrow> int \<Rightarrow> myriota_rational" where
  "make_myriota_rational a b =
     (let d = gcd a b
      in if b < 0 then \<lparr>p = (- a) div d, q = (- b) div d\<rparr> else \<lparr>p = a div d, q = b div d\<rparr>)"

text \<open>
  Modelled from the spec: the body of \<^verbatim>\<open>myriota_rational_sum\<close> is not part of the
  sources; its declaration says "The sum of two rational numbers", and the result is
  reduced as every Rational is.
\<close>

definition myriota_rational_sum :: "myriota_rational \<Rightarrow> myriota_rational \<Rightarrow> myriota_rational" where
  "myriota_rational_sum x y = make_myriota_rational (p x * q y + p y * q x) (q x * q y)"

text \<open>
  Modelled from the spec: the body of \<^verbatim>\<open>myriota_continued_fraction(x, size, r)\<close> is not
  part of the sources; its declaration says "Computes continued fraction expansion of
  decimal number of size N". The model gives at most \<open>size\<close> partial quotients, fewer
  when the expansion of \<open>x\<close> ends before.
\<close>

fun myriota_continued_fraction :: "real \<Rightarrow> nat \<Rightarrow> int list" where
  "myriota_continued_fraction x 0 = []"
| "myriota_continued_fraction x (Suc n) =
     \<lfloor>x\<rfloor> # (if x = of_int \<lfloor>x\<rfloor> then []
            else myriota_continued_fraction (1 / (x - of_int \<lfloor>x\<rfloor>)) n)"

text \<open>
  Modelled from the spec: the convergents ("produced by continued-fraction expansion of
  a real number") of the partial quotients \<open>as\<close>, by the recurrence
  \<open>p\<^sub>n = a\<^sub>n p\<^bsub>n-1\<^esub> + p\<^bsub>n-2\<^esub>\<close>, \<open>q\<^sub>n = a\<^sub>n q\<^bsub>n-1\<^esub> + q\<^bsub>n-2\<^esub>\<close>; every one is built by
  \<open>make_myriota_rational\<close>.
\<close>

fun convergents :: "int \<Rightarrow> int \<Rightarrow> int \<Rightarrow> int \<Rightarrow> int list \<Rightarrow> myriota_rational list" where
  "convergents p1 q1 p2 q2 [] = []"
| "convergents p1 q1 p2 q2 (a # as) =
     make_myriota_rational (a * p1 + p2) (a * q1 + q2)
       # convergents (a * p1 + p2) (a * q1 + q2) p1 q1 as"

text \<open>
  Modelled from the spec: the body of \<^verbatim>\<open>myriota_best_approximations(x, size, b)\<close> is not
  part of the sources; its declaration says "Return first size best rational
  approximations to decimal x", the spec "enumeration of the first n best convergents of
  x".
\<close>

definition myriota_best_approximations :: "real \<Rightarrow> nat \<Rightarrow> myriota_rational list" where
  "myriota_best_approximations x n = convergents 1 0 0 1 (myriota_continued_fraction x n)"

text \<open>
  Modelled from the spec: the body of \<^verbatim>\<open>myriota_rational_approximation(x, tol, qmax, k)\<close>
  is not part of the sources. The spec's contract is "returns a
  Rational p/q such that either |x - p/q| < tolerance, or q \<le> qmax, or it is exactly
  the k-th continued-fraction convergent of x - whichever criterion is reached first
  while expanding the continued fraction", with the failure mode "if no convergent
  satisfies the tolerance before q exceeds qmax, the best available convergent is
  returned". The model walks the first \<open>k\<close> convergents and returns the first one that
  is within the tolerance, or whose successor has a denominator above \<open>qmax\<close>, or that
  is the last. For \<open>k = 0\<close> there is no convergent to return and the spec defines no
  result: \<open>None\<close>.
\<close>

definition approximation_error :: "real \<Rightarrow> myriota_rational \<Rightarrow> real" where
  "approximation_error x c = \<bar>x - real_of_int (p c) / real_of_int (q c)\<bar>"

fun first_good :: "real \<Rightarrow> real \<Rightarrow> int \<Rightarrow> myriota_rational list \<Rightarrow> myriota_rational option" where
  "first_good x tol qmax [] = None"
| "first_good x tol qmax [c] = Some c"
| "first_good x tol qmax (c # c' # cs) =
     (if approximation_error x c < tol then Some c
      else if qmax < q c' then Some c
      else first_good x tol qmax (c' # cs))"

definition myriota_rational_approximation ::
  "real \<Rightarrow> real \<Rightarrow> int \<Rightarrow> nat \<Rightarrow> myriota_rational option" where
  "myriota_rational_approximation x tol qmax k =
     first_good x tol qmax (myriota_best_approximations x k)"

text \<open>
  The invariant of a Rational in the spec: "gcd(|numerator|, denominator) = 1" and
  "denominator > 0".
\<close>

definition reduced :: "myriota_rational \<Rightarrow> bool" where
  "reduced c \<longleftrightarrow> gcd \<bar>p c\<bar> (q c) = 1 \<and> 0 < q c"

text \<open>
  The expansion of a fraction \<open>a / b\<close> computed on the integers (Euclid's algorithm);
  lemma \<open>continued_fraction_of_fraction\<close> shows that it is the expansion above, and it
  is what evaluates the expansion of a decimal number.
\<close>

fun cf_frac :: "int \<Rightarrow> int \<Rightarrow> nat \<Rightarrow> int list" where
  "cf_frac a b 0 = []"
| "cf_frac a b (Suc n) = (a div b) # (if a mod b = 0 then [] else cf_frac b (a mod b) n)"

section \<open>Properties\<close>

subsection \<open>The power of two\<close>

lemma pow2_from_spec:
  "x \<le> 2 ^ (i + f) \<Longrightarrow>
   \<exists>j. i \<le> j \<and> j \<le> i + f \<and> pow2_from f (2 ^ i) x = 2 ^ j \<and> x \<le> 2 ^ j \<and>
     (i < j \<longrightarrow> 2 ^ (j - 1) < x)"
proof (induction f arbitrary: i)
  case 0
  then show ?case by auto
next
  case (Suc f)
  show ?case
  proof (cases "x \<le> 2 ^ i")
    case True
    then show ?thesis by auto
  next
    case False
    from Suc.prems have "x \<le> 2 ^ (Suc i + f)" by simp
    from Suc.IH [OF this] obtain j where j: "Suc i \<le> j" "j \<le> Suc i + f"
      "pow2_from f (2 ^ Suc i) x = 2 ^ j" "x \<le> 2 ^ j" "Suc i < j \<longrightarrow> 2 ^ (j - 1) < x"
      by blast
    have "2 ^ (j - 1) < x"
    proof (cases "Suc i < j")
      case True
      with j show ?thesis by blast
    next
      case False
      with j have "j = Suc i" by simp
      with \<open>\<not> x \<le> 2 ^ i\<close> show ?thesis by simp
    qed
    with j False show ?thesis
      by (intro exI [of _ j]) auto
  qed
qed

lemma greater_power_of_two_exp:
  assumes "unat x \<le> 2 ^ 31"
  shows "\<exists>k\<le>31. myriota_greater_power_of_two x = 2 ^ k \<and> unat x \<le> 2 ^ k \<and>
    (0 < k \<longrightarrow> 2 ^ (k - 1) < unat x)"
proof -
  have "unat x \<le> 2 ^ (0 + 32)" using assms by simp
  from pow2_from_spec [OF this] obtain j where j: "j \<le> 32"
    "pow2_from 32 1 (unat x) = 2 ^ j" "unat x \<le> 2 ^ j" "0 < j \<longrightarrow> 2 ^ (j - 1) < unat x"
    by auto
  have "j \<le> 31"
  proof (rule ccontr)
    assume "\<not> j \<le> 31"
    with j have "j = 32" by simp
    with j assms show False by simp
  qed
  with j show ?thesis
    by (intro exI [of _ j]) (simp add: myriota_greater_power_of_two_def)
qed

subsection \<open>Words\<close>

lemma unat_and_mask64: "unat ((w :: 64 word) AND mask k) = unat w mod 2 ^ k"
proof -
  have "unat (w AND mask k) = unat (take_bit k w)"
    by (simp only: take_bit_eq_mask)
  also have "\<dots> = take_bit k (unat w)"
    by (rule unsigned_take_bit_eq)
  also have "\<dots> = unat w mod 2 ^ k"
    by (rule take_bit_eq_mod)
  finally show ?thesis .
qed

lemma sint_mod_pow2:
  assumes "k \<le> 64"
  shows "sint (w :: 64 word) mod 2 ^ k = uint w mod 2 ^ k"
proof -
  have "uint w mod 2 ^ k = take_bit k (uint w)"
    by (simp add: take_bit_eq_mod)
  also have "\<dots> = take_bit k (take_bit 64 (sint w))"
    using uint_sint [of w] by simp
  also have "\<dots> = take_bit k (sint w)"
    using assms by (simp add: min_def)
  also have "\<dots> = sint w mod 2 ^ k"
    by (simp add: take_bit_eq_mod)
  finally show ?thesis by simp
qed

lemma sint_word_of_int64:
  "- (2 ^ 63) \<le> x \<Longrightarrow> x < 2 ^ 63 \<Longrightarrow> sint (word_of_int x :: 64 word) = x"
  by (simp add: sint_sbintrunc' signed_take_bit_int_eq_self)

lemma sint_of_nat_diff:
  assumes "- (2 ^ 63) \<le> int a - int b" "int a - int b < 2 ^ 63"
  shows "sint ((of_nat a :: 64 word) - of_nat b) = int a - int b"
proof -
  have "(of_nat a :: 64 word) - of_nat b = word_of_int (int a - int b)"
    by simp
  then show ?thesis
    using assms by (simp only: sint_word_of_int64)
qed

subsection \<open>The shape of the store\<close>

lemma ucast_mask_cb: "wf_cb k b \<Longrightarrow> (ucast (mask_cb b) :: 64 word) = mask k"
  by (simp add: wf_cb_def ucast_mask_eq flip: mask_eq_decr_exp)

lemma unat_pow2_32:
  assumes "k \<le> 31"
  shows "unat (2 ^ k :: 32 word) = 2 ^ k"
proof -
  have "k < 32" using assms by simp
  then have "(2::nat) ^ k < 2 ^ 32"
    by (rule power_strict_increasing) simp
  moreover have "unat (word_of_nat (2 ^ k) :: 32 word) = 2 ^ k mod 2 ^ 32"
    by (simp only: unat_of_nat) simp
  ultimately show ?thesis by simp
qed

lemma unat_size_cb: "wf_cb k b \<Longrightarrow> unat (size_cb b) = 2 ^ k"
  by (simp add: wf_cb_def unat_pow2_32)

lemma ucast_size_cb:
  assumes "wf_cb k b"
  shows "(ucast (size_cb b) :: 64 word) = of_nat (2 ^ k)"
proof -
  have "(ucast (size_cb b) :: 64 word) = of_nat (unat (size_cb b))"
    by simp
  then show ?thesis
    by (simp only: unat_size_cb [OF assms])
qed

lemma slot_eq:
  assumes "wf_cb k b"
  shows "slot b n = nat (sint n mod 2 ^ k)"
proof -
  from assms have k: "k \<le> 64" by (simp add: wf_cb_def)
  have "int (slot b n) = uint n mod 2 ^ k"
    by (simp add: slot_def ucast_mask_cb [OF assms] unat_and_mask64 zmod_int)
  with sint_mod_pow2 [OF k, of n] show ?thesis by simp
qed

lemma slot_less:
  assumes "wf_cb k b"
  shows "slot b n < length (buf b)"
proof -
  have "slot b n = unat n mod 2 ^ k"
    by (simp add: slot_def ucast_mask_cb [OF assms] unat_and_mask64)
  moreover have "length (buf b) = 2 ^ k"
    using assms by (simp add: wf_cb_def)
  ultimately show ?thesis by simp
qed

lemma push_slot: "wf_cb k b \<Longrightarrow> unat (N b AND ucast (mask_cb b)) = unat (N b) mod 2 ^ k"
  by (simp add: ucast_mask_cb unat_and_mask64)

lemma push_slot_less:
  assumes "wf_cb k b"
  shows "unat (N b AND ucast (mask_cb b)) < length (buf b)"
proof -
  have "length (buf b) = 2 ^ k" using assms by (simp add: wf_cb_def)
  then show ?thesis by (simp add: push_slot [OF assms])
qed

lemma wf_push: "wf_cb k b \<Longrightarrow> wf_cb k (push b e)"
  by (simp add: wf_cb_def push_def)

lemma wf_set: "wf_cb k b \<Longrightarrow> set_cb b n v = Inr b' \<Longrightarrow> wf_cb k b'"
  by (auto simp add: wf_cb_def set_cb_def split: if_splits)

lemma new_wf_gen:
  assumes "unat (sz + 1) \<le> 2 ^ 31"
  shows "\<exists>k. wf_cb k (CircularBuffer sz init) \<and> smallest_pow2_ge (unat (sz + 1)) (2 ^ k)"
proof -
  from greater_power_of_two_exp [OF assms] obtain k where k: "k \<le> 31"
    "myriota_greater_power_of_two (sz + 1) = 2 ^ k" "unat (sz + 1) \<le> 2 ^ k"
    "0 < k \<longrightarrow> 2 ^ (k - 1) < unat (sz + 1)" by blast
  have "wf_cb k (CircularBuffer sz init)"
    using k by (simp add: wf_cb_def CircularBuffer_def Let_def unat_pow2_32)
  moreover have "smallest_pow2_ge (unat (sz + 1)) (2 ^ k)"
    unfolding smallest_pow2_ge_def
  proof (intro conjI allI impI)
    show "\<exists>ka. (2::nat) ^ k = 2 ^ ka" by blast
    show "unat (sz + 1) \<le> 2 ^ k" using k by simp
    fix j assume j: "unat (sz + 1) \<le> 2 ^ j"
    show "(2::nat) ^ k \<le> 2 ^ j"
    proof (cases "k \<le> j")
      case True
      then show ?thesis by simp
    next
      case False
      then have "j \<le> k - 1" "0 < k" by simp_all
      then have "(2::nat) ^ j \<le> 2 ^ (k - 1)" by simp
      moreover have "2 ^ (k - 1) < unat (sz + 1)" using k \<open>0 < k\<close> by simp
      ultimately have False using j by linarith
      then show ?thesis ..
    qed
  qed
  ultimately show ?thesis by blast
qed

lemma unat_succ_small:
  assumes "unat (sz :: 32 word) < 2 ^ 31"
  shows "unat (sz + 1) = unat sz + 1"
  using assms by (simp add: unat_word_ariths)

lemma new_wf:
  assumes "unat sz < 2 ^ 31"
  shows "\<exists>k. wf_cb k (CircularBuffer sz init) \<and> smallest_pow2_ge (unat sz + 1) (2 ^ k)"
proof -
  have u: "unat (sz + 1) = unat sz + 1" by (rule unat_succ_small [OF assms])
  then have "unat (sz + 1) \<le> 2 ^ 31" using assms by simp
  from new_wf_gen [OF this, of init] show ?thesis by (simp only: u)
qed



subsection \<open>Reachable states and the index window\<close>

lemma reach_shape:
  assumes "reach sz init m f b" "wf_cb k (CircularBuffer sz init)"
  shows "wf_cb k b \<and> N b = of_nat m"
  using assms
proof (induction rule: reach.induct)
  case reach_new
  then show ?case by (simp add: CircularBuffer_def Let_def)
next
  case (reach_push m f b elem)
  then show ?case by (simp add: wf_push) (simp add: push_def)
next
  case (reach_set m f b n v b')
  then have "wf_cb k b'" by (blast intro: wf_set)
  moreover from reach_set have "N b' = of_nat m"
    by (auto simp add: set_cb_def split: if_splits)
  ultimately show ?case ..
qed

lemma push_all_snoc: "push_all b (vs @ [v]) = push (push_all b vs) v"
  by (simp add: push_all_def)

lemma reach_push_all: "\<exists>f. reach sz init (length vs) f (push_all (CircularBuffer sz init) vs)"
proof (induction vs rule: rev_induct)
  case Nil
  show ?case by (auto simp add: push_all_def intro: reach_new)
next
  case (snoc v vs)
  then obtain f where "reach sz init (length vs) f (push_all (CircularBuffer sz init) vs)" ..
  then have "reach sz init (Suc (length vs)) (f(int (length vs) := v))
    (push (push_all (CircularBuffer sz init) vs) v)" by (rule reach_push)
  then show ?case by (auto simp add: push_all_snoc)
qed

lemma push_all_shape:
  assumes "wf_cb k (CircularBuffer sz init)"
  shows "wf_cb k (push_all (CircularBuffer sz init) vs)"
    and "N (push_all (CircularBuffer sz init) vs) = of_nat (length vs)"
proof -
  obtain f where "reach sz init (length vs) f (push_all (CircularBuffer sz init) vs)"
    using reach_push_all [of sz init vs] by blast
  from reach_shape [OF this assms]
  show "wf_cb k (push_all (CircularBuffer sz init) vs)"
    and "N (push_all (CircularBuffer sz init) vs) = of_nat (length vs)" by simp_all
qed

lemma sint_maxn:
  assumes "N b = of_nat m" "m < 2 ^ 63"
  shows "sint (maxn b) = int m - 1"
proof -
  have "- (2 ^ 63) \<le> int m - int 1" "int m - int 1 < 2 ^ 63"
    using assms by simp_all
  then have "sint ((of_nat m :: 64 word) - of_nat 1) = int m - int 1"
    by (rule sint_of_nat_diff)
  then show ?thesis using assms by (simp add: maxn_def)
qed

lemma pow2_le_31: "k \<le> 31 \<Longrightarrow> (2::int) ^ k \<le> 2 ^ 31"
  by (rule power_increasing) simp_all

lemma sint_minn:
  assumes "wf_cb k b" "N b = of_nat m" "m < 2 ^ 63"
  shows "sint (minn b) = int m - 2 ^ k"
proof -
  from assms have "k \<le> 31" by (simp add: wf_cb_def)
  then have k: "(2::int) ^ k \<le> 2 ^ 31" by (rule pow2_le_31)
  have eq: "minn b = of_nat m - of_nat (2 ^ k)"
    using assms by (simp only: minn_def ucast_size_cb)
  have lo: "- (2 ^ 63) \<le> int m - int (2 ^ k)"
    using k by simp
  have "int m - int (2 ^ k) < int m" by simp
  also have "int m < 2 ^ 63" using assms(3) by simp
  finally have "int m - int (2 ^ k) < 2 ^ 63" .
  with lo have "sint ((of_nat m :: 64 word) - of_nat (2 ^ k)) = int m - int (2 ^ k)"
    by (rule sint_of_nat_diff)
  then show ?thesis by (simp add: eq)
qed

lemma mod_neq_within:
  fixes i n c :: nat
  assumes "i < n" "n < i + c"
  shows "i mod c \<noteq> n mod c"
proof
  assume "i mod c = n mod c"
  then have "n mod c = i mod c" by simp
  moreover have "i \<le> n" using assms by simp
  ultimately have "c dvd n - i"
    by (simp add: mod_eq_dvd_iff_nat)
  moreover have "0 < n - i" "n - i < c" using assms by simp_all
  ultimately show False by (simp add: nat_dvd_not_less)
qed

subsection \<open>The contents after a sequence of pushes\<close>

lemma buf_push:
  assumes "wf_cb k b" "N b = of_nat m"
  shows "buf (push b v) = (buf b)[m mod 2 ^ k := v]"
proof -
  from assms have "k \<le> 64" by (simp add: wf_cb_def)
  then have "(2::nat) ^ k dvd 2 ^ 64" by (rule le_imp_power_dvd)
  then have "m mod 2 ^ 64 mod 2 ^ k = m mod 2 ^ k" by (rule mod_mod_cancel)
  moreover have "unat (N b) = m mod 2 ^ 64"
    using assms by (simp only: unat_of_nat) simp
  ultimately have "unat (N b AND ucast (mask_cb b)) = m mod 2 ^ k"
    by (simp only: push_slot [OF assms(1)])
  then show ?thesis by (simp add: push_def)
qed

lemma buf_new: "wf_cb k (CircularBuffer sz init) \<Longrightarrow> buf (CircularBuffer sz init) = replicate (2 ^ k) init"
  by (simp add: wf_cb_def CircularBuffer_def Let_def unat_pow2_32)

lemma push_all_contents:
  assumes wf: "wf_cb k (CircularBuffer sz init)"
  shows "(\<forall>i<length vs. length vs \<le> i + 2 ^ k \<longrightarrow>
            buf (push_all (CircularBuffer sz init) vs) ! (i mod 2 ^ k) = vs ! i) \<and>
         (\<forall>j<2 ^ k. length vs \<le> j \<longrightarrow> buf (push_all (CircularBuffer sz init) vs) ! j = init)"
proof (induction vs rule: rev_induct)
  case Nil
  show ?case using buf_new [OF wf] by (simp add: push_all_def)
next
  case (snoc v vs)
  let ?b = "push_all (CircularBuffer sz init) vs"
  let ?n = "length vs"
  have shape: "wf_cb k ?b" "N ?b = of_nat ?n"
    by (rule push_all_shape [OF wf])+
  have len: "length (buf ?b) = 2 ^ k" using shape by (simp add: wf_cb_def)
  have bufeq: "buf (push_all (CircularBuffer sz init) (vs @ [v])) = (buf ?b)[?n mod 2 ^ k := v]"
    by (simp only: push_all_snoc buf_push [OF shape])
  show ?case
  proof (intro conjI allI impI)
    fix i
    assume i: "i < length (vs @ [v])" "length (vs @ [v]) \<le> i + 2 ^ k"
    show "buf (push_all (CircularBuffer sz init) (vs @ [v])) ! (i mod 2 ^ k) = (vs @ [v]) ! i"
    proof (cases "i = ?n")
      case True
      then show ?thesis using len by (simp add: bufeq)
    next
      case False
      with i have lt: "i < ?n" "?n < i + 2 ^ k" by simp_all
      then have "i mod 2 ^ k \<noteq> ?n mod 2 ^ k" by (rule mod_neq_within)
      moreover from snoc lt have "buf ?b ! (i mod 2 ^ k) = vs ! i" by simp
      ultimately show ?thesis using lt by (simp add: bufeq nth_append)
    qed
  next
    fix j :: nat
    assume j: "j < 2 ^ k" "length (vs @ [v]) \<le> j"
    then have "?n mod 2 ^ k \<noteq> j" by simp
    moreover from snoc j have "buf ?b ! j = init" by simp
    ultimately show "buf (push_all (CircularBuffer sz init) (vs @ [v])) ! j = init"
      by (simp add: bufeq)
  qed
qed

subsection \<open>The contents of a reachable store\<close>

lemma zmod_neq_within:
  fixes i j c :: int
  assumes "i \<noteq> j" "\<bar>i - j\<bar> < c"
  shows "i mod c \<noteq> j mod c"
proof
  assume "i mod c = j mod c"
  then have "c dvd i - j" by (simp add: mod_eq_dvd_iff)
  then have "c dvd \<bar>i - j\<bar>" by simp
  moreover have "0 < \<bar>i - j\<bar>" using assms by simp
  ultimately have "c \<le> \<bar>i - j\<bar>" by (simp add: zdvd_imp_le)
  with assms show False by simp
qed

lemma nat_zmod_pow2_eq_iff:
  "nat (i mod 2 ^ k) = m mod 2 ^ k \<longleftrightarrow> i mod 2 ^ k = int m mod 2 ^ k"
proof -
  have "int (m mod 2 ^ k) = int m mod 2 ^ k" by (simp add: zmod_int)
  moreover have "0 \<le> i mod 2 ^ k" by simp
  ultimately show ?thesis by (metis nat_int int_nat_eq)
qed

lemma set_cb_Inr:
  assumes "set_cb b n v = Inr b'"
  shows "sint (minn b) \<le> sint n" "sint n \<le> sint (maxn b)" "b' = b\<lparr>buf := (buf b)[slot b n := v]\<rparr>"
  using assms by (auto simp add: set_cb_def split: if_splits)

lemma reach_contents:
  assumes "reach sz init m f b" "wf_cb k (CircularBuffer sz init)" "m < 2 ^ 63"
  shows "\<forall>i. int m - 2 ^ k \<le> i \<and> i < int m \<longrightarrow> buf b ! nat (i mod 2 ^ k) = f i"
  using assms
proof (induction rule: reach.induct)
  case reach_new
  have "nat (i mod 2 ^ k) < 2 ^ k" for i :: int
    by (simp add: nat_less_iff)
  then show ?case using buf_new [OF reach_new(1)] by simp
next
  case (reach_push m f b elem)
  from reach_push have m: "m < 2 ^ 63" by simp
  from reach_shape [OF reach_push(1) reach_push(3)]
  have shape: "wf_cb k b" "N b = of_nat m" by simp_all
  have len: "length (buf b) = 2 ^ k" using shape by (simp add: wf_cb_def)
  have bufeq: "buf (push b elem) = (buf b)[m mod 2 ^ k := elem]"
    by (rule buf_push [OF shape])
  show ?case
  proof (intro allI impI)
    fix i :: int
    assume i: "int (Suc m) - 2 ^ k \<le> i \<and> i < int (Suc m)"
    show "buf (push b elem) ! nat (i mod 2 ^ k) = (f(int m := elem)) i"
    proof (cases "i = int m")
      case True
      then have "nat (i mod 2 ^ k) = m mod 2 ^ k"
        by (simp add: nat_zmod_pow2_eq_iff)
      then show ?thesis using True len by (simp add: bufeq)
    next
      case False
      from i False have "\<bar>i - int m\<bar> < 2 ^ k" by simp
      with False have "i mod 2 ^ k \<noteq> int m mod 2 ^ k" by (rule zmod_neq_within)
      then have "nat (i mod 2 ^ k) \<noteq> m mod 2 ^ k"
        by (simp add: nat_zmod_pow2_eq_iff)
      moreover from False i reach_push.IH [OF reach_push(3) m]
      have "buf b ! nat (i mod 2 ^ k) = f i" by simp
      ultimately show ?thesis using False by (simp add: bufeq)
    qed
  qed
next
  case (reach_set m f b n v b')
  from reach_shape [OF reach_set(1) reach_set(4)]
  have shape: "wf_cb k b" "N b = of_nat m" by simp_all
  have len: "length (buf b) = 2 ^ k" using shape by (simp add: wf_cb_def)
  note s = set_cb_Inr [OF reach_set(2)]
  have win: "int m - 2 ^ k \<le> sint n" "sint n < int m"
    using s(1,2) sint_minn [OF shape reach_set(5)] sint_maxn [OF shape(2) reach_set(5)]
    by simp_all
  have sl: "slot b n = nat (sint n mod 2 ^ k)" by (rule slot_eq [OF shape(1)])
  have bufeq: "buf b' = (buf b)[nat (sint n mod 2 ^ k) := v]"
    using s(3) sl by simp
  have sl_len: "nat (sint n mod 2 ^ k) < length (buf b)"
    using slot_less [OF shape(1), of n] sl by simp
  show ?case
  proof (intro allI impI)
    fix i :: int
    assume i: "int m - 2 ^ k \<le> i \<and> i < int m"
    show "buf b' ! nat (i mod 2 ^ k) = (f(sint n := v)) i"
    proof (cases "i = sint n")
      case True
      then show ?thesis using sl_len by (simp add: bufeq)
    next
      case False
      from i win have "\<bar>i - sint n\<bar> < 2 ^ k" by linarith
      with False have "i mod 2 ^ k \<noteq> sint n mod 2 ^ k" by (rule zmod_neq_within)
      then have "nat (i mod 2 ^ k) \<noteq> nat (sint n mod 2 ^ k)"
        by (simp add: nat_eq_iff)
      moreover from i reach_set.IH [OF reach_set(4) reach_set(5)]
      have "buf b ! nat (i mod 2 ^ k) = f i" by simp
      ultimately show ?thesis using False by (simp add: bufeq)
    qed
  qed
qed

subsection \<open>The checked read in terms of the slots\<close>

lemma size_push_all: "size_cb (push_all b vs) = size_cb b"
  by (induction vs rule: rev_induct) (simp_all add: push_all_def push_def)

lemma at_cb_window:
  assumes "wf_cb k b" "N b = of_nat m" "m < 2 ^ 63"
  shows "at_cb b n =
    (if int m - 2 ^ k \<le> sint n \<and> sint n \<le> int m - 1 then Inr (buf b ! nat (sint n mod 2 ^ k))
     else Inl (out_of_range (''circluar buffer at '' @ window_text b n)))"
  by (simp add: at_cb_def read_unchecked_def slot_eq [OF assms(1)]
      sint_minn [OF assms] sint_maxn [OF assms(2,3)])

lemma neg_index_mod:
  fixes x c :: int and l :: nat
  assumes "int l - c \<le> x" "x \<le> - 1"
  shows "x mod c = x + c"
proof -
  have "0 \<le> x + c" "x + c < c" using assms by simp_all
  then have "(x + c) mod c = x + c" by (rule mod_pos_pos_trivial)
  then show ?thesis by simp
qed

lemma greater_power_of_two_11: "myriota_greater_power_of_two 11 = 16"
  by code_simp

lemma size_new_10: "size_cb (CircularBuffer 10 init) = 16"
  by (simp add: CircularBuffer_def Let_def greater_power_of_two_11)

subsection \<open>The index window of the store\<close>

lemma at_cb_reach:
  assumes "reach sz init m f b" "wf_cb k (CircularBuffer sz init)" "m < 2 ^ 63"
  shows "at_cb b n =
    (if int m - 2 ^ k \<le> sint n \<and> sint n \<le> int m - 1 then Inr (f (sint n))
     else Inl (out_of_range (''circluar buffer at '' @ window_text b n)))"
proof -
  from reach_shape [OF assms(1,2)] have shape: "wf_cb k b" "N b = of_nat m" by simp_all
  from reach_contents [OF assms]
  have "int m - 2 ^ k \<le> sint n \<and> sint n \<le> int m - 1 \<Longrightarrow> buf b ! nat (sint n mod 2 ^ k) = f (sint n)"
    by simp
  then show ?thesis by (simp add: at_cb_window [OF shape assms(3)])
qed

lemma set_cb_window:
  assumes "wf_cb k b" "N b = of_nat m" "m < 2 ^ 63"
  shows "set_cb b n v =
    (if int m - 2 ^ k \<le> sint n \<and> sint n \<le> int m - 1 then Inr (b\<lparr>buf := (buf b)[slot b n := v]\<rparr>)
     else Inl (out_of_range (''circluar buffer set '' @ window_text b n)))"
  by (simp add: set_cb_def sint_minn [OF assms] sint_maxn [OF assms(2,3)])

text \<open>
  Claim C1, as the code has it. At every state a store reaches with fewer than
  \<open>2 ^ 63\<close> pushes (requested size below \<open>2 ^ 31\<close>), \<^verbatim>\<open>minn()\<close> is \<open>N - C\<close>, which is
  negative while \<open>N < C\<close> and not cut off at \<open>0\<close>, \<^verbatim>\<open>maxn()\<close> is \<open>N - 1\<close>, and the
  indices that \<^verbatim>\<open>at\<close> reads without raising are exactly those from \<open>N - C\<close> to
  \<open>N - 1\<close>. Here \<open>N\<close> is the number of pushes and \<open>C\<close> the field \<^verbatim>\<open>size\<close>.
\<close>

theorem minn_maxn_window:
  assumes "reach sz init m f b" "unat sz < 2 ^ 31" "m < 2 ^ 63"
  shows "sint (minn b) = int m - int (unat (size_cb b)) \<and> sint (maxn b) = int m - 1 \<and>
    (\<forall>n. (\<exists>x. at_cb b n = Inr x) \<longleftrightarrow>
       int m - int (unat (size_cb b)) \<le> sint n \<and> sint n \<le> int m - 1)"
proof -
  from new_wf [OF assms(2), of init] obtain k where wf: "wf_cb k (CircularBuffer sz init)"
    by blast
  from reach_shape [OF assms(1) wf] have shape: "wf_cb k b" "N b = of_nat m" by simp_all
  have C: "int (unat (size_cb b)) = 2 ^ k" by (simp add: unat_size_cb [OF shape(1)])
  have "sint (minn b) = int m - 2 ^ k" by (rule sint_minn [OF shape assms(3)])
  moreover have "sint (maxn b) = int m - 1" by (rule sint_maxn [OF shape(2) assms(3)])
  moreover have "(\<exists>x. at_cb b n = Inr x) \<longleftrightarrow> int m - 2 ^ k \<le> sint n \<and> sint n \<le> int m - 1" for n
    by (simp add: at_cb_window [OF shape assms(3)])
  ultimately show ?thesis by (simp only: C) simp
qed

theorem minn_maxn_window_witness:
  "sint (minn (push (CircularBuffer 10 (0 :: int)) 7)) = - 15 \<and>
   sint (maxn (push (CircularBuffer 10 (0 :: int)) 7)) = 0 \<and>
   (\<exists>x. at_cb (push (CircularBuffer 10 (0 :: int)) 7) (- 15) = Inr x)"
proof -
  have r: "reach 10 (0 :: int) (Suc 0) ((\<lambda>i. 0)(int 0 := 7)) (push (CircularBuffer 10 0) 7)"
    by (rule reach_push [OF reach_new])
  have sz: "unat (10 :: 32 word) < 2 ^ 31" by simp
  have m: "Suc 0 < 2 ^ 63" by simp
  have C: "size_cb (push (CircularBuffer 10 (0 :: int)) 7) = 16"
    by (simp add: push_def size_new_10)
  from minn_maxn_window [OF r sz m] show ?thesis
    by (simp add: C)
qed

theorem minn_not_clamped_counterexample:
  "unat (pushed (CircularBuffer 10 (0 :: int))) = 0 \<and>
   unat (size_cb (CircularBuffer 10 (0 :: int))) = 16 \<and>
   sint (minn (CircularBuffer 10 (0 :: int))) = - 16 \<and>
   sint (minn (CircularBuffer 10 (0 :: int))) \<noteq>
     max 0 (int (unat (pushed (CircularBuffer 10 (0 :: int))))
       - int (unat (size_cb (CircularBuffer 10 (0 :: int)))))"
  by (simp add: minn_def pushed_def size_new_10) (simp add: CircularBuffer_def Let_def)

subsection \<open>The bounds-checked accessors\<close>

text \<open>
  Claim C2, as the code has it. At every state a store reaches with fewer than
  \<open>2 ^ 63\<close> pushes (requested size below \<open>2 ^ 31\<close>), \<^verbatim>\<open>at(n)\<close> and \<^verbatim>\<open>set(n, v)\<close> raise
  \<^verbatim>\<open>std::out_of_range\<close>, with a message that holds \<open>n\<close>, \<^verbatim>\<open>minn()\<close> and \<^verbatim>\<open>maxn()\<close>,
  exactly when \<open>n\<close> is outside the window from \<open>N - C\<close> to \<open>N - 1\<close>, whose lower end is
  negative while \<open>N < C\<close>. Inside the window \<^verbatim>\<open>at(n)\<close> returns the value written last
  at the index \<open>n\<close> by \<^verbatim>\<open>push\<close> or \<^verbatim>\<open>set\<close>, and the initial value of the constructor
  where nothing was written (the history \<open>f\<close> of \<open>reach\<close>); \<^verbatim>\<open>set(n, v)\<close> stores
  \<open>v\<close> in the slot of \<open>n\<close>, and a read of \<open>n\<close> after it returns \<open>v\<close>.
\<close>

theorem checked_access_window:
  assumes "reach sz init m f b" "unat sz < 2 ^ 31" "m < 2 ^ 63"
  shows "sint (minn b) = int m - int (unat (size_cb b)) \<and> sint (maxn b) = int m - 1 \<and>
    at_cb b n =
      (if sint (minn b) \<le> sint n \<and> sint n \<le> sint (maxn b) then Inr (f (sint n))
       else Inl (out_of_range (''circluar buffer at '' @ to_string n @ '' outside ['' @
         to_string (minn b) @ '', '' @ to_string (maxn b) @ '']''))) \<and>
    set_cb b n v =
      (if sint (minn b) \<le> sint n \<and> sint n \<le> sint (maxn b)
       then Inr (b\<lparr>buf := (buf b)[slot b n := v]\<rparr>)
       else Inl (out_of_range (''circluar buffer set '' @ to_string n @ '' outside ['' @
         to_string (minn b) @ '', '' @ to_string (maxn b) @ '']''))) \<and>
    (\<forall>b'. set_cb b n v = Inr b' \<longrightarrow> at_cb b' n = Inr v)"
proof -
  from new_wf [OF assms(2), of init] obtain k where wf: "wf_cb k (CircularBuffer sz init)"
    by blast
  from reach_shape [OF assms(1) wf] have shape: "wf_cb k b" "N b = of_nat m" by simp_all
  have C: "int (unat (size_cb b)) = 2 ^ k" by (simp add: unat_size_cb [OF shape(1)])
  have lo: "sint (minn b) = int m - 2 ^ k" by (rule sint_minn [OF shape assms(3)])
  have hi: "sint (maxn b) = int m - 1" by (rule sint_maxn [OF shape(2) assms(3)])
  have a: "at_cb b n =
      (if sint (minn b) \<le> sint n \<and> sint n \<le> sint (maxn b) then Inr (f (sint n))
       else Inl (out_of_range (''circluar buffer at '' @ to_string n @ '' outside ['' @
         to_string (minn b) @ '', '' @ to_string (maxn b) @ '']'')))"
    by (simp add: at_cb_reach [OF assms(1) wf assms(3)] lo hi window_text_def)
  have s: "set_cb b n v =
      (if sint (minn b) \<le> sint n \<and> sint n \<le> sint (maxn b)
       then Inr (b\<lparr>buf := (buf b)[slot b n := v]\<rparr>)
       else Inl (out_of_range (''circluar buffer set '' @ to_string n @ '' outside ['' @
         to_string (minn b) @ '', '' @ to_string (maxn b) @ '']'')))"
    by (simp add: set_cb_def window_text_def)
  have w: "at_cb b' n = Inr v" if b': "set_cb b n v = Inr b'" for b'
  proof -
    from b' have win: "int m - 2 ^ k \<le> sint n \<and> sint n \<le> int m - 1"
      using lo hi by (simp add: set_cb_def split: if_splits)
    have "reach sz init m (f(sint n := v)) b'" by (rule reach_set [OF assms(1) b'])
    from at_cb_reach [OF this wf assms(3), of n] win show ?thesis by simp
  qed
  from lo hi a s w show ?thesis by (simp only: C) blast
qed

theorem checked_access_window_witness:
  "at_cb (push (CircularBuffer 10 (0 :: int)) 7) 0 = Inr 7 \<and>
   at_cb (push (CircularBuffer 10 (0 :: int)) 7) 1 =
     Inl (out_of_range ''circluar buffer at 1 outside [-15, 0]'') \<and>
   set_cb (push (CircularBuffer 10 (0 :: int)) 7) (- 16) 3 =
     Inl (out_of_range ''circluar buffer set -16 outside [-15, 0]'')"
proof -
  have r: "reach 10 (0 :: int) (Suc 0) ((\<lambda>i. 0)(int 0 := 7)) (push (CircularBuffer 10 0) 7)"
    by (rule reach_push [OF reach_new])
  have sz: "unat (10 :: 32 word) < 2 ^ 31" by simp
  have m: "Suc 0 < 2 ^ 63" by simp
  have C: "size_cb (push (CircularBuffer 10 (0 :: int)) 7) = 16"
    by (simp add: push_def size_new_10)
  have w: "minn (push (CircularBuffer 10 (0 :: int)) 7) = - 15"
    "maxn (push (CircularBuffer 10 (0 :: int)) 7) = 0"
    by (simp_all add: minn_def maxn_def C) (simp_all add: push_def CircularBuffer_def Let_def)
  have d: "to_string 1 = ''1''" "to_string 0 = ''0''" "to_string (- 15) = ''-15''"
    "to_string (- 16) = ''-16''"
    by (simp_all add: to_string_def digits.simps)
  from checked_access_window [OF r sz m, of 0 3] checked_access_window [OF r sz m, of 1 3]
    checked_access_window [OF r sz m, of "- 16" 3]
  show ?thesis
    by (simp add: C w d)
qed

theorem at_negative_index_counterexample:
  "unat (pushed (CircularBuffer 10 (0 :: int))) = 0 \<and>
   unat (size_cb (CircularBuffer 10 (0 :: int))) = 16 \<and>
   sint (- 1 :: 64 word) < max 0 (int (unat (pushed (CircularBuffer 10 (0 :: int))))
       - int (unat (size_cb (CircularBuffer 10 (0 :: int))))) \<and>
   at_cb (CircularBuffer 10 (0 :: int)) (- 1) = Inr 0"
proof -
  have "at_cb (CircularBuffer 10 (0 :: int)) (- 1) = Inr 0"
    by code_simp
  then show ?thesis
    by (simp add: pushed_def size_new_10) (simp add: CircularBuffer_def Let_def)
qed

subsection \<open>Pushing and reading back; the size of the store\<close>

text \<open>
  Claim C8, as the code has it. After the values \<open>v\<^sub>0, ..., v\<^bsub>N-1\<^esub>\<close> have been pushed
  (fewer than \<open>2 ^ 63\<close> of them, requested size below \<open>2 ^ 31\<close>), the bounds-checked
  read of every index \<open>n\<close> with \<open>max(0, minn()) \<le> n \<le> maxn()\<close> returns \<open>v\<^sub>n\<close>, and
  the read of every index below \<^verbatim>\<open>minn()\<close> or above \<^verbatim>\<open>maxn()\<close> raises
  \<^verbatim>\<open>std::out_of_range\<close>, where \<^verbatim>\<open>minn()\<close> is \<open>N - C\<close> and \<^verbatim>\<open>maxn()\<close> is \<open>N - 1\<close>.
  (The negative indices of the window are the subject of C10.)
\<close>

theorem push_then_read:
  assumes "b = push_all (CircularBuffer sz init) vs" "unat sz < 2 ^ 31" "length vs < 2 ^ 63"
  shows "sint (minn b) = int (length vs) - int (unat (size_cb b)) \<and>
    sint (maxn b) = int (length vs) - 1 \<and>
    (\<forall>n. max 0 (sint (minn b)) \<le> sint n \<and> sint n \<le> sint (maxn b) \<longrightarrow>
       nat (sint n) < length vs \<and> at_cb b n = Inr (vs ! nat (sint n))) \<and>
    (\<forall>n. sint n < sint (minn b) \<or> sint (maxn b) < sint n \<longrightarrow>
       at_cb b n = Inl (out_of_range (''circluar buffer at '' @ window_text b n)))"
proof -
  from new_wf [OF assms(2), of init] obtain k where wf: "wf_cb k (CircularBuffer sz init)"
    by blast
  have shape: "wf_cb k b" "N b = of_nat (length vs)"
    unfolding assms(1) by (rule push_all_shape [OF wf])+
  have C: "int (unat (size_cb b)) = 2 ^ k" by (simp add: unat_size_cb [OF shape(1)])
  have lo: "sint (minn b) = int (length vs) - 2 ^ k" by (rule sint_minn [OF shape assms(3)])
  have hi: "sint (maxn b) = int (length vs) - 1" by (rule sint_maxn [OF shape(2) assms(3)])
  have inside: "nat (sint n) < length vs \<and> at_cb b n = Inr (vs ! nat (sint n))"
    if n: "max 0 (sint (minn b)) \<le> sint n \<and> sint n \<le> sint (maxn b)" for n
  proof -
    define i where "i = nat (sint n)"
    from n lo hi have nn: "0 \<le> sint n" "int (length vs) - 2 ^ k \<le> sint n"
      "sint n < int (length vs)" by simp_all
    have i1: "sint n = int i" using nn(1) by (simp add: i_def)
    have i2: "i < length vs" using nn(3) i1 by simp
    have i3: "int (length vs) \<le> int i + 2 ^ k" using nn(2) i1 by simp
    note i = i1 i2 i3
    from i(3) have "int (length vs) \<le> int (i + 2 ^ k)" by simp
    then have "length vs \<le> i + 2 ^ k" by (simp only: of_nat_le_iff)
    with push_all_contents [OF wf, of vs] i(2)
    have "buf b ! (i mod 2 ^ k) = vs ! i" by (simp add: assms(1))
    moreover have "nat (sint n mod 2 ^ k) = i mod 2 ^ k"
      by (simp add: i(1) nat_zmod_pow2_eq_iff)
    ultimately show ?thesis
      using i lo hi by (simp add: at_cb_window [OF shape assms(3)] flip: i_def)
  qed
  have outside: "at_cb b n = Inl (out_of_range (''circluar buffer at '' @ window_text b n))"
    if "sint n < sint (minn b) \<or> sint (maxn b) < sint n" for n
    using that lo hi by (auto simp add: at_cb_window [OF shape assms(3)])
  from lo hi inside outside show ?thesis by (simp only: C) blast
qed

theorem push_then_read_witness:
  "at_cb (push_all (CircularBuffer 2 (0 :: int)) [5, 6, 7, 8, 9]) 1 = Inr 6 \<and>
   at_cb (push_all (CircularBuffer 2 (0 :: int)) [5, 6, 7, 8, 9]) 4 = Inr 9 \<and>
   at_cb (push_all (CircularBuffer 2 (0 :: int)) [5, 6, 7, 8, 9]) 0 =
     Inl (out_of_range ''circluar buffer at 0 outside [1, 4]'')"
proof -
  have sz: "unat (2 :: 32 word) < 2 ^ 31" by simp
  have m: "length [5, 6, 7, 8, 9 :: int] < 2 ^ 63" by simp
  have g: "myriota_greater_power_of_two 3 = 4" by code_simp
  have C: "size_cb (push_all (CircularBuffer 2 (0 :: int)) [5, 6, 7, 8, 9]) = 4"
    by (simp add: size_push_all CircularBuffer_def Let_def g)
  have N: "N (push_all (CircularBuffer 2 (0 :: int)) [5, 6, 7, 8, 9]) = 5"
    by (simp add: push_all_def push_def CircularBuffer_def Let_def)
  have w: "minn (push_all (CircularBuffer 2 (0 :: int)) [5, 6, 7, 8, 9]) = 1"
    "maxn (push_all (CircularBuffer 2 (0 :: int)) [5, 6, 7, 8, 9]) = 4"
    by (simp_all add: minn_def maxn_def C N)
  have d: "to_string 0 = ''0''" "to_string 1 = ''1''" "to_string 4 = ''4''"
    by (simp_all add: to_string_def digits.simps)
  from push_then_read [OF refl sz m, of 0] show ?thesis
    by (simp add: C w d window_text_def)
qed

theorem read_unpushed_index_counterexample:
  "sint (- 1 :: 64 word) < 0 \<and>
   sint (minn (push_all (CircularBuffer 10 (0 :: int)) [5, 6])) = - 14 \<and>
   sint (maxn (push_all (CircularBuffer 10 (0 :: int)) [5, 6])) = 1 \<and>
   at_cb (push_all (CircularBuffer 10 (0 :: int)) [5, 6]) (- 1) = Inr 0"
proof -
  have C: "size_cb (push_all (CircularBuffer 10 (0 :: int)) [5, 6]) = 16"
    by (simp add: size_push_all size_new_10)
  have N: "N (push_all (CircularBuffer 10 (0 :: int)) [5, 6]) = 2"
    by (simp add: push_all_def push_def CircularBuffer_def Let_def)
  have "at_cb (push_all (CircularBuffer 10 (0 :: int)) [5, 6]) (- 1) = Inr 0"
    by code_simp
  then show ?thesis by (simp add: minn_def maxn_def C N)
qed

text \<open>
  No \<^verbatim>\<open>unsigned int\<close> is a power of two that is at least \<open>2 ^ 31 + 1\<close>, whatever
  \<^verbatim>\<open>myriota_greater_power_of_two\<close> computes.
\<close>

lemma no_unsigned_int_above: "\<not> smallest_pow2_ge (2 ^ 31 + 1) (unat (w :: 32 word))"
proof
  assume "smallest_pow2_ge (2 ^ 31 + 1) (unat w)"
  then obtain k where k: "unat w = 2 ^ k" and ge: "(2 :: nat) ^ 31 + 1 \<le> unat w"
    by (auto simp add: smallest_pow2_ge_def)
  have "\<not> k \<le> 31"
  proof
    assume "k \<le> 31"
    then have "(2 :: nat) ^ k \<le> 2 ^ 31" by (rule power_increasing) simp
    with k ge show False by simp
  qed
  then have "32 \<le> k" by simp
  then have "(2 :: nat) ^ 32 \<le> 2 ^ k" by (rule power_increasing) simp
  moreover have "unat w < 2 ^ 32" using unsigned_less [of w] by simp
  ultimately show False using k by simp
qed

text \<open>
  Claim C6, as the code has it. For a requested size \<open>c < 2 ^ 31\<close> the constructor
  gives the store the size \<open>C\<close> that is the smallest power of two with \<open>c + 1 \<le> C\<close>;
  the requested size 10 gives the size 16. (From \<open>c = 2 ^ 31\<close> on no power of two
  that is at least \<open>c + 1\<close> is an \<^verbatim>\<open>unsigned int\<close>.)
\<close>

theorem capacity_rounding:
  "(unat sz < 2 ^ 31 \<longrightarrow>
      smallest_pow2_ge (unat sz + 1) (unat (size_cb (CircularBuffer sz init)))) \<and>
   unat (size_cb (CircularBuffer 10 init)) = 16"
proof (intro conjI impI)
  assume "unat sz < 2 ^ 31"
  from new_wf [OF this, of init] obtain k where
    k: "wf_cb k (CircularBuffer sz init)" "smallest_pow2_ge (unat sz + 1) (2 ^ k)" by blast
  then show "smallest_pow2_ge (unat sz + 1) (unat (size_cb (CircularBuffer sz init)))"
    by (simp only: unat_size_cb)
next
  show "unat (size_cb (CircularBuffer 10 init)) = 16" by (simp add: size_new_10)
qed

theorem capacity_rounding_witness:
  "unat (10 :: 32 word) < 2 ^ 31 \<and>
   smallest_pow2_ge (unat (10 :: 32 word) + 1) (unat (size_cb (CircularBuffer 10 (0 :: int)))) \<and>
   unat (size_cb (CircularBuffer 10 (0 :: int))) = 16"
  using capacity_rounding [of 10 "0 :: int"] by (simp add: size_new_10)

theorem capacity_overflow_counterexample:
  "unat (2 ^ 31 :: 32 word) + 1 = 2147483649 \<and>
   \<not> smallest_pow2_ge (unat (2 ^ 31 :: 32 word) + 1)
     (unat (size_cb (CircularBuffer (2 ^ 31) (0 :: int))))"
  using no_unsigned_int_above [of "size_cb (CircularBuffer (2 ^ 31) (0 :: int))"] by simp

subsection \<open>Reading a negative index before the store is full\<close>






subsection \<open>Continued fractions of fractions\<close>

lemma frac_of_fraction:
  fixes a b :: int
  assumes "0 < b"
  shows "real_of_int a / real_of_int b - real_of_int (a div b) = real_of_int (a mod b) / real_of_int b"
proof -
  have "real_of_int (b * (a div b) + a mod b) = real_of_int a"
    by (simp only: mult_div_mod_eq)
  then have "real_of_int b * real_of_int (a div b) + real_of_int (a mod b) = real_of_int a"
    by (simp only: of_int_add of_int_mult)
  then show ?thesis using assms by (simp add: field_simps)
qed

lemma continued_fraction_of_fraction:
  "0 < b \<Longrightarrow> myriota_continued_fraction (real_of_int a / real_of_int b) n = cf_frac a b n"
proof (induction n arbitrary: a b)
  case 0
  show ?case by simp
next
  case (Suc n)
  have fl: "\<lfloor>real_of_int a / real_of_int b\<rfloor> = a div b"
    by (rule floor_divide_of_int_eq)
  have fr: "real_of_int a / real_of_int b - real_of_int (a div b) = real_of_int (a mod b) / real_of_int b"
    by (rule frac_of_fraction [OF Suc.prems])
  show ?case
  proof (cases "a mod b = 0")
    case True
    then have "real_of_int a / real_of_int b = real_of_int (a div b)"
      using fr by simp
    with True show ?thesis by (simp add: fl)
  next
    case False
    then have pos: "0 < a mod b" using Suc.prems
      by (metis pos_mod_sign less_le)
    have ne: "real_of_int a / real_of_int b \<noteq> real_of_int (a div b)"
      using fr pos Suc.prems by auto
    have "1 / (real_of_int a / real_of_int b - real_of_int (a div b)) = real_of_int b / real_of_int (a mod b)"
      by (simp add: fr)
    with False ne Suc.IH [OF pos, of b] show ?thesis by (simp add: fl)
  qed
qed

lemma pi_macro_fraction:
  "pi_macro = real_of_int 314159265358979323846 / real_of_int 100000000000000000000"
  by (simp add: pi_macro_def)

lemma cf_pi: "\<exists>rest. myriota_continued_fraction pi_macro (Suc (Suc (Suc (Suc n)))) = 3 # 7 # 15 # 1 # rest"
  unfolding pi_macro_fraction by (simp add: continued_fraction_of_fraction)

subsection \<open>Rationals in lowest terms\<close>

lemma reduced_quotients:
  fixes a b :: int
  assumes "0 < b"
  shows "gcd \<bar>a div gcd a b\<bar> (b div gcd a b) = 1 \<and> 0 < b div gcd a b"
proof -
  have "coprime (a div gcd a b) (b div gcd a b)"
    using assms by (intro div_gcd_coprime) simp
  then have "gcd \<bar>a div gcd a b\<bar> (b div gcd a b) = 1"
    by (simp add: coprime_iff_gcd_eq_1)
  moreover have "0 < gcd a b" using assms by simp
  moreover have "gcd a b \<le> b" using assms by (simp add: gcd_le2_int)
  ultimately show ?thesis using assms by (simp add: pos_imp_zdiv_pos_iff)
qed

lemma reduced_make:
  assumes "b \<noteq> 0"
  shows "reduced (make_myriota_rational a b)"
proof (cases "b < 0")
  case True
  then have "0 < - b" by simp
  from reduced_quotients [OF this, of "- a"] True show ?thesis
    by (simp add: reduced_def make_myriota_rational_def Let_def)
next
  case False
  with assms have "0 < b" by simp
  from reduced_quotients [OF this, of a] False show ?thesis
    by (simp add: reduced_def make_myriota_rational_def Let_def)
qed

lemma reduced_convergents:
  "1 \<le> q1 \<Longrightarrow> 0 \<le> q2 \<Longrightarrow> \<forall>a\<in>set as. 1 \<le> a \<Longrightarrow>
   \<forall>c\<in>set (convergents p1 q1 p2 q2 as). reduced c"
proof (induction as arbitrary: p1 q1 p2 q2)
  case Nil
  show ?case by simp
next
  case (Cons a as)
  from Cons.prems have a: "1 \<le> a" by simp
  have "1 * 1 \<le> a * q1" using a Cons.prems(1) by (intro mult_mono) simp_all
  with Cons.prems(2) have qn: "1 \<le> a * q1 + q2" by simp
  then have "reduced (make_myriota_rational (a * p1 + p2) (a * q1 + q2))"
    by (intro reduced_make) simp
  moreover have "\<forall>c\<in>set (convergents (a * p1 + p2) (a * q1 + q2) p1 q1 as). reduced c"
    using qn Cons.prems by (intro Cons.IH) simp_all
  ultimately show ?case by simp
qed

lemma continued_fraction_tail:
  "1 < x \<Longrightarrow> \<forall>a\<in>set (myriota_continued_fraction x n). 1 \<le> a"
proof (induction n arbitrary: x)
  case 0
  show ?case by simp
next
  case (Suc n)
  have fl: "1 \<le> \<lfloor>x\<rfloor>" using Suc.prems by linarith
  show ?case
  proof (cases "x = of_int \<lfloor>x\<rfloor>")
    case True
    with fl show ?thesis by simp
  next
    case False
    then have "0 < x - of_int \<lfloor>x\<rfloor>" "x - of_int \<lfloor>x\<rfloor> < 1" by linarith+
    then have "1 < 1 / (x - of_int \<lfloor>x\<rfloor>)" by simp
    from Suc.IH [OF this] False fl show ?thesis by simp
  qed
qed

lemma reduced_best_approximations:
  "\<forall>c\<in>set (myriota_best_approximations x n). reduced c"
proof (cases n)
  case 0
  then show ?thesis by (simp add: myriota_best_approximations_def)
next
  case (Suc m)
  have first: "reduced (make_myriota_rational \<lfloor>x\<rfloor> 1)"
    by (rule reduced_make) simp
  show ?thesis
  proof (cases "x = of_int \<lfloor>x\<rfloor>")
    case True
    with first Suc show ?thesis by (simp add: myriota_best_approximations_def)
  next
    case False
    then have "0 < x - of_int \<lfloor>x\<rfloor>" "x - of_int \<lfloor>x\<rfloor> < 1" by linarith+
    then have "1 < 1 / (x - of_int \<lfloor>x\<rfloor>)" by simp
    then have "\<forall>a\<in>set (myriota_continued_fraction (1 / (x - of_int \<lfloor>x\<rfloor>)) m). 1 \<le> a"
      by (rule continued_fraction_tail)
    then have "\<forall>c\<in>set (convergents \<lfloor>x\<rfloor> 1 1 0
        (myriota_continued_fraction (1 / (x - of_int \<lfloor>x\<rfloor>)) m)). reduced c"
      by (intro reduced_convergents) simp_all
    with first False Suc show ?thesis by (simp add: myriota_best_approximations_def)
  qed
qed

lemma first_good_mem: "first_good x tol qmax cs = Some c \<Longrightarrow> c \<in> set cs"
  by (induction x tol qmax cs rule: first_good.induct) (auto split: if_splits)

text \<open>
  Claim C5. Every \<^verbatim>\<open>myriota_rational\<close> the rational operations produce has numerator
  and denominator relatively prime, \<open>gcd(|p|, q) = 1\<close>, and a positive denominator:
  the result of \<^verbatim>\<open>make_myriota_rational(a, b)\<close> for a denominator \<open>b \<noteq> 0\<close>, the sum of two
  rationals with denominators other than zero, every element that
  \<^verbatim>\<open>myriota_best_approximations\<close> writes and every result of
  \<^verbatim>\<open>myriota_rational_approximation\<close>.
\<close>

theorem rational_outputs_reduced:
  "(b \<noteq> 0 \<longrightarrow> reduced (make_myriota_rational a b)) \<and>
   (q x \<noteq> 0 \<and> q y \<noteq> 0 \<longrightarrow> reduced (myriota_rational_sum x y)) \<and>
   (\<forall>c\<in>set (myriota_best_approximations z n). reduced c) \<and>
   (\<forall>c. myriota_rational_approximation z tol qmax k = Some c \<longrightarrow> reduced c)"
proof (intro conjI impI allI)
  assume "b \<noteq> 0"
  then show "reduced (make_myriota_rational a b)" by (rule reduced_make)
next
  assume "q x \<noteq> 0 \<and> q y \<noteq> 0"
  then have "q x * q y \<noteq> 0" by simp
  then show "reduced (myriota_rational_sum x y)"
    unfolding myriota_rational_sum_def by (rule reduced_make)
next
  show "\<forall>c\<in>set (myriota_best_approximations z n). reduced c"
    by (rule reduced_best_approximations)
next
  fix c
  assume "myriota_rational_approximation z tol qmax k = Some c"
  then have "c \<in> set (myriota_best_approximations z k)"
    unfolding myriota_rational_approximation_def by (rule first_good_mem)
  with reduced_best_approximations [of z k] show "reduced c" by blast
qed

subsection \<open>The approximation of a real value\<close>

lemma make_pi_convergents:
  "make_myriota_rational 3 1 = \<lparr>p = 3, q = 1\<rparr>"
  "make_myriota_rational 22 7 = \<lparr>p = 22, q = 7\<rparr>"
  "make_myriota_rational 333 106 = \<lparr>p = 333, q = 106\<rparr>"
  "make_myriota_rational 355 113 = \<lparr>p = 355, q = 113\<rparr>"
  by code_simp+

lemma best_approximations_pi:
  "\<exists>cs. myriota_best_approximations pi_macro (Suc (Suc (Suc (Suc n)))) =
     \<lparr>p = 3, q = 1\<rparr> # \<lparr>p = 22, q = 7\<rparr> # \<lparr>p = 333, q = 106\<rparr> # \<lparr>p = 355, q = 113\<rparr> # cs"
proof -
  from cf_pi [of n] obtain rest where
    e: "myriota_continued_fraction pi_macro (Suc (Suc (Suc (Suc n)))) = 3 # 7 # 15 # 1 # rest" ..
  have "convergents 1 0 0 1 (3 # 7 # 15 # 1 # rest) =
     \<lparr>p = 3, q = 1\<rparr> # \<lparr>p = 22, q = 7\<rparr> # \<lparr>p = 333, q = 106\<rparr> # \<lparr>p = 355, q = 113\<rparr>
       # convergents 355 113 333 106 rest"
    by (simp add: make_pi_convergents)
  then show ?thesis
    unfolding myriota_best_approximations_def e by blast
qed

lemma pi_errors:
  "\<not> approximation_error pi_macro \<lparr>p = 3, q = 1\<rparr> < 1 / 10 ^ 6"
  "\<not> approximation_error pi_macro \<lparr>p = 22, q = 7\<rparr> < 1 / 10 ^ 6"
  "\<not> approximation_error pi_macro \<lparr>p = 333, q = 106\<rparr> < 1 / 10 ^ 6"
  "approximation_error pi_macro \<lparr>p = 355, q = 113\<rparr> < 1 / 10 ^ 6"
  "approximation_error pi_macro \<lparr>p = 355, q = 113\<rparr> < 3 / 10 ^ 7"
  by (simp_all add: approximation_error_def pi_macro_def)

lemma first_good_within: "approximation_error x c < tol \<Longrightarrow> first_good x tol qmax (c # cs) = Some c"
  by (cases cs) simp_all

lemma rational_approximation_pi:
  assumes "4 \<le> k" "113 \<le> qmax"
  shows "myriota_rational_approximation pi_macro (1 / 10 ^ 6) qmax k = Some \<lparr>p = 355, q = 113\<rparr>"
proof -
  define n where "n = k - 4"
  with assms(1) have k: "k = Suc (Suc (Suc (Suc n)))" by simp
  from best_approximations_pi [of n] obtain cs where
    e: "myriota_best_approximations pi_macro (Suc (Suc (Suc (Suc n)))) =
      \<lparr>p = 3, q = 1\<rparr> # \<lparr>p = 22, q = 7\<rparr> # \<lparr>p = 333, q = 106\<rparr> # \<lparr>p = 355, q = 113\<rparr> # cs" ..
  have "first_good pi_macro (1 / 10 ^ 6) qmax (\<lparr>p = 355, q = 113\<rparr> # cs) = Some \<lparr>p = 355, q = 113\<rparr>"
    by (rule first_good_within [OF pi_errors(4)])
  then show ?thesis
    unfolding myriota_rational_approximation_def k e using assms(2) pi_errors(1-3)
    by simp
qed

theorem rational_outputs_reduced_witness:
  "(- 4 :: int) \<noteq> 0 \<and> make_myriota_rational 6 (- 4) = \<lparr>p = - 3, q = 2\<rparr> \<and>
   reduced (make_myriota_rational 6 (- 4)) \<and>
   q \<lparr>p = 1, q = 2\<rparr> \<noteq> 0 \<and> q \<lparr>p = 1, q = 6\<rparr> \<noteq> 0 \<and>
   reduced (myriota_rational_sum \<lparr>p = 1, q = 2\<rparr> \<lparr>p = 1, q = 6\<rparr>) \<and>
   \<lparr>p = 3, q = 1\<rparr> \<in> set (myriota_best_approximations pi_macro (Suc 0)) \<and>
   reduced \<lparr>p = 3, q = 1\<rparr> \<and>
   myriota_rational_approximation pi_macro (1 / 10 ^ 6) 113 4 = Some \<lparr>p = 355, q = 113\<rparr> \<and>
   reduced \<lparr>p = 355, q = 113\<rparr>"
proof -
  have m: "make_myriota_rational 6 (- 4) = \<lparr>p = - 3, q = 2\<rparr>" by code_simp
  have b: "\<lparr>p = 3, q = 1\<rparr> \<in> set (myriota_best_approximations pi_macro (Suc 0))"
    unfolding pi_macro_fraction myriota_best_approximations_def
    by (simp add: continued_fraction_of_fraction make_pi_convergents)
  have a: "myriota_rational_approximation pi_macro (1 / 10 ^ 6) 113 4 = Some \<lparr>p = 355, q = 113\<rparr>"
    by (rule rational_approximation_pi) simp_all
  note t = rational_outputs_reduced [of "- 4" 6 "\<lparr>p = 1, q = 2\<rparr>" "\<lparr>p = 1, q = 6\<rparr>"
      pi_macro "Suc 0" "1 / 10 ^ 6" 113 4]
  from t have r1: "reduced (make_myriota_rational 6 (- 4))" by simp
  from t have r2: "reduced (myriota_rational_sum \<lparr>p = 1, q = 2\<rparr> \<lparr>p = 1, q = 6\<rparr>)" by simp
  from t have "\<forall>c\<in>set (myriota_best_approximations pi_macro (Suc 0)). reduced c" by blast
  with b have r3: "reduced \<lparr>p = 3, q = 1\<rparr>" by blast
  from t have "\<forall>c. myriota_rational_approximation pi_macro (1 / 10 ^ 6) 113 4 = Some c
    \<longrightarrow> reduced c" by blast
  with a have r4: "reduced \<lparr>p = 355, q = 113\<rparr>" by blast
  from m b a r1 r2 r3 r4 show ?thesis by simp
qed

subsection \<open>Rounding to double\<close>

lemma pow2_neg: "0 \<le> j \<Longrightarrow> pow2 (- j) = 1 / 2 ^ nat j"
  by (cases "j = 0") (simp_all add: pow2_def)

lemma expo_up_le: "y < 2 ^ Suc k \<Longrightarrow> expo_up f y e \<le> e + int k"
proof (induction f arbitrary: y e k)
  case 0
  show ?case by simp
next
  case (Suc f)
  show ?case
  proof (cases "2 \<le> y")
    case False
    then show ?thesis by simp
  next
    case True
    with Suc.prems obtain k' where k: "k = Suc k'" by (cases k) simp_all
    with Suc.prems have "y / 2 < 2 ^ Suc k'" by simp
    from Suc.IH [OF this, of "e + 1"] True k show ?thesis by simp
  qed
qed

lemma expo_down_le: "expo_down f y e \<le> e"
proof (induction f arbitrary: y e)
  case 0
  show ?case by simp
next
  case (Suc f)
  from Suc.IH [of "2 * y" "e - 1"] show ?case by simp
qed

lemma exponent_le_52:
  assumes "\<bar>y\<bar> < 2 ^ 53"
  shows "exponent y \<le> 52"
proof (cases "1 \<le> \<bar>y\<bar>")
  case True
  from assms have "\<bar>y\<bar> < 2 ^ Suc 52" by simp
  from expo_up_le [OF this, of 1100 0] True show ?thesis by (simp add: exponent_def)
next
  case False
  from expo_down_le [of 1022 "\<bar>y\<bar>" 0] False show ?thesis by (simp add: exponent_def)
qed

lemma round_even_ge: "of_int a \<le> z \<Longrightarrow> a \<le> round_even z"
proof -
  assume "of_int a \<le> z"
  then have "a \<le> \<lfloor>z\<rfloor>" by (simp add: le_floor_iff)
  then have "a \<le> \<lfloor>z\<rfloor> + 1" by simp
  with \<open>a \<le> \<lfloor>z\<rfloor>\<close> show ?thesis by (simp add: round_even_def Let_def)
qed

lemma round_even_le: "z \<le> of_int b \<Longrightarrow> round_even z \<le> b"
proof -
  assume z: "z \<le> of_int b"
  show ?thesis
  proof (cases "z = of_int b")
    case True
    then show ?thesis by (simp add: round_even_def Let_def)
  next
    case False
    with z have "z < of_int b" by simp
    then have "\<lfloor>z\<rfloor> < b" by (simp add: floor_less_iff)
    then have "\<lfloor>z\<rfloor> + 1 \<le> b" by simp
    moreover have "\<lfloor>z\<rfloor> \<le> b" using \<open>\<lfloor>z\<rfloor> < b\<close> by simp
    ultimately show ?thesis by (simp add: round_even_def Let_def)
  qed
qed

lemma rnd_between:
  assumes "\<bar>y\<bar> < 2 ^ 53" "of_int a \<le> y" "y \<le> of_int b"
  shows "of_int a \<le> rnd y \<and> rnd y \<le> of_int b"
proof -
  define j where "j = nat (52 - exponent y)"
  have e: "exponent y - 52 = - int j" "0 \<le> int j"
    using exponent_le_52 [OF assms(1)] by (simp_all add: j_def)
  have u: "pow2 (exponent y - 52) = 1 / 2 ^ j"
    unfolding e(1) using pow2_neg [OF e(2)] by simp
  have r: "rnd y = of_int (round_even (y * 2 ^ j)) / 2 ^ j"
    by (simp add: rnd_def Let_def u)
  have "of_int (a * 2 ^ j) \<le> y * 2 ^ j" using assms(2) by simp
  then have lo: "a * 2 ^ j \<le> round_even (y * 2 ^ j)" by (rule round_even_ge)
  have "y * 2 ^ j \<le> of_int (b * 2 ^ j)" using assms(3) by simp
  then have hi: "round_even (y * 2 ^ j) \<le> b * 2 ^ j" by (rule round_even_le)
  from lo have "real_of_int (a * 2 ^ j) \<le> real_of_int (round_even (y * 2 ^ j))"
    by (simp only: of_int_le_iff)
  then have "real_of_int a \<le> rnd y" by (simp add: r field_simps)
  moreover from hi have "real_of_int (round_even (y * 2 ^ j)) \<le> real_of_int (b * 2 ^ j)"
    by (simp only: of_int_le_iff)
  then have "rnd y \<le> real_of_int b" by (simp add: r field_simps)
  ultimately show ?thesis ..
qed

lemma rnd_int:
  assumes "\<bar>k\<bar> < 2 ^ 53"
  shows "rnd (of_int k) = of_int k"
proof -
  have "\<bar>real_of_int k\<bar> < 2 ^ 53"
    using assms by (metis of_int_abs of_int_less_numeral_power_cancel_iff)
  from rnd_between [OF this, of k k] show ?thesis by simp
qed

lemma rnd_abs_le:
  assumes "\<bar>y\<bar> < 2 ^ 53"
  shows "\<bar>rnd y\<bar> \<le> 2 ^ 53"
proof -
  have "of_int (- (2 ^ 53)) \<le> y" "y \<le> of_int (2 ^ 53)" using assms by simp_all
  from rnd_between [OF assms this] have "- (2 ^ 53) \<le> rnd y" "rnd y \<le> 2 ^ 53"
    by simp_all
  then show ?thesis by (simp only: abs_le_iff) simp
qed

lemma rnd_int_bounds:
  assumes "\<bar>y\<bar> < 2 ^ 53"
  shows "- (2 ^ 53) \<le> \<lfloor>rnd y\<rfloor>" "\<lceil>rnd y\<rceil> \<le> 2 ^ 53"
proof -
  have "of_int (- (2 ^ 53)) \<le> y" "y \<le> of_int (2 ^ 53)" using assms by simp_all
  from rnd_between [OF assms this]
  have b: "of_int (- (2 ^ 53)) \<le> rnd y" "rnd y \<le> of_int (2 ^ 53)" by blast+
  from b(1) show "- (2 ^ 53) \<le> \<lfloor>rnd y\<rfloor>" by (simp only: le_floor_iff)
  from b(2) show "\<lceil>rnd y\<rceil> \<le> 2 ^ 53" by (simp only: ceiling_le_iff)
qed

lemma fl_small:
  assumes "\<bar>y\<bar> < 2 ^ 53"
  shows "fl y = Some (rnd y)"
proof -
  have "(2 :: real) ^ 53 \<le> DBL_MAX" by (simp add: DBL_MAX_def)
  with rnd_abs_le [OF assms] have "\<bar>rnd y\<bar> \<le> DBL_MAX" by (rule order_trans)
  then show ?thesis by (simp add: fl_def)
qed



lemma int64_of_double_int:
  "- (2 ^ 63) \<le> c \<Longrightarrow> c < 2 ^ 63 \<Longrightarrow> int64_of_double (of_int c) = Some c"
  by (simp add: int64_of_double_def)

lemma Upsampler_push_all_fields:
  "a_up (Upsampler_push_all u xs) = push_all (a_up u) xs \<and>
   gamma_up (Upsampler_push_all u xs) = gamma_up u \<and> W_up (Upsampler_push_all u xs) = W_up u"
  by (induction xs rule: rev_induct)
    (simp_all add: Upsampler_push_all_def push_all_def Upsampler_push_def)

text \<open>
  The product of \<open>gamma\<close> and an integer \<open>s\<close> of moderate size, computed in \<^verbatim>\<open>double\<close>:
  it is finite, and its ceiling and its floor are those of the exact product or next to
  them.
\<close>

lemma product_rounded:
  assumes "\<bar>gamma\<bar> \<le> 2 ^ 10" "\<bar>s\<bar> < 2 ^ 42"
  shows "fl (gamma * of_int s) = Some (rnd (gamma * of_int s))"
    and "- (2 ^ 63) \<le> \<lceil>rnd (gamma * of_int s)\<rceil>" and "\<lceil>rnd (gamma * of_int s)\<rceil> < 2 ^ 63"
    and "- (2 ^ 63) \<le> \<lfloor>rnd (gamma * of_int s)\<rfloor>" and "\<lfloor>rnd (gamma * of_int s)\<rfloor> < 2 ^ 63"
    and "\<bar>gamma * of_int s\<bar> < 2 ^ 53"
proof -
  have "\<bar>real_of_int s\<bar> < 2 ^ 42"
    using assms(2) by (metis of_int_abs of_int_less_numeral_power_cancel_iff)
  then have "\<bar>gamma\<bar> * \<bar>real_of_int s\<bar> \<le> 2 ^ 10 * 2 ^ 42"
    using assms(1) by (intro mult_mono) simp_all
  then show b: "\<bar>gamma * of_int s\<bar> < 2 ^ 53" by (simp add: abs_mult)
  show "fl (gamma * of_int s) = Some (rnd (gamma * of_int s))" by (rule fl_small [OF b])
  note r = rnd_int_bounds [OF b]
  have fc: "\<lfloor>rnd (gamma * of_int s)\<rfloor> \<le> \<lceil>rnd (gamma * of_int s)\<rceil>" by linarith
  have n: "- (2 ^ 63) \<le> - ((2 :: int) ^ 53)" "(2 :: int) ^ 53 < 2 ^ 63" by simp_all
  from r fc n show "- (2 ^ 63) \<le> \<lceil>rnd (gamma * of_int s)\<rceil>"
    "\<lceil>rnd (gamma * of_int s)\<rceil> < 2 ^ 63"
    "- (2 ^ 63) \<le> \<lfloor>rnd (gamma * of_int s)\<rfloor>" "\<lfloor>rnd (gamma * of_int s)\<rfloor> < 2 ^ 63"
    by linarith+
qed

text \<open>
  The exponent of a number of known magnitude, and two products whose rounding changes
  the ceiling or the floor: \<open>2476979795053773 / 2 ^ 51\<close> is the \<^verbatim>\<open>double\<close> nearest to
  \<open>1.1\<close> and lies above it, so that ten times it lies above \<open>11\<close> and rounds to \<open>11\<close>;
  \<open>6004799503160661 / 2 ^ 52\<close> is the \<^verbatim>\<open>double\<close> nearest to \<open>4 / 3\<close> and lies below it,
  so that three times it lies below \<open>4\<close> and rounds to \<open>4\<close>.
\<close>

lemma expo_up_exact:
  "2 ^ k \<le> y \<Longrightarrow> y < 2 ^ Suc k \<Longrightarrow> k \<le> f \<Longrightarrow> expo_up f y e = e + int k"
proof (induction k arbitrary: f y e)
  case 0
  then show ?case by (cases f) simp_all
next
  case (Suc k)
  from Suc.prems obtain f' where f: "f = Suc f'" by (cases f) simp_all
  have "(1 :: real) \<le> 2 ^ k" by simp
  then have "(2 :: real) \<le> 2 ^ Suc k" by simp
  with Suc.prems(1) have y: "2 \<le> y" by linarith
  from Suc.prems f have "2 ^ k \<le> y / 2" "y / 2 < 2 ^ Suc k" "k \<le> f'" by simp_all
  from Suc.IH [OF this, of "e + 1"] y f show ?case by simp
qed

lemma exponent_eval:
  assumes "2 ^ k \<le> \<bar>y\<bar>" "\<bar>y\<bar> < 2 ^ Suc k" "k \<le> 1100"
  shows "exponent y = int k"
proof -
  have "(1 :: real) \<le> 2 ^ k" by simp
  with assms(1) have "1 \<le> \<bar>y\<bar>" by linarith
  with expo_up_exact [OF assms, of 0] show ?thesis by (simp add: exponent_def)
qed


lemma rnd_four: "rnd (6004799503160661 / 4503599627370496 * real_of_int 3) = 4"
proof -
  have "exponent (6004799503160661 / 4503599627370496 * real_of_int 3) = int 1"
    by (rule exponent_eval) simp_all
  then show ?thesis
    by (simp add: rnd_def Let_def pow2_def round_even_def)
qed

subsection \<open>The output window of the Upsampler\<close>

text \<open>
  The values of \<^verbatim>\<open>minn()\<close> and \<^verbatim>\<open>maxn()\<close> after \<open>length xs\<close> pushes, for an integral
  \<open>W\<close>: no step but the product rounds, and no step leaves the finite \<^verbatim>\<open>double\<close>s or
  the range of \<^verbatim>\<open>int64_t\<close>.
\<close>

lemma Upsampler_window_values:
  assumes "u = Upsampler_push_all (Upsampler_new (of_int w) r gamma gmin gmax sz init g) xs"
    "unat sz < 2 ^ 31" "length xs < 2 ^ 40" "\<bar>w\<bar> < 2 ^ 40" "\<bar>gamma\<bar> \<le> 2 ^ 10"
  defines "s1 \<equiv> int (length xs) - 1 - int (unat (size_cb (CircularBuffer sz init))) + w"
    and "s2 \<equiv> int (length xs) - 1 - 1 - w"
  shows "Upsampler_minn u = Some \<lceil>rnd (gamma * real_of_int s1)\<rceil>"
    and "Upsampler_maxn u = Some \<lfloor>rnd (gamma * real_of_int s2)\<rfloor>"
    and "gamma_up u *
      (real_of_int (sint (maxn (a_up u))) - real (unat (size_cb (a_up u))) + W_up u)
      = gamma * real_of_int s1"
    and "gamma_up u * (real_of_int (sint (maxn (a_up u))) - 1 - W_up u) = gamma * real_of_int s2"
    and "\<bar>gamma * real_of_int s1\<bar> < 2 ^ 53" and "\<bar>gamma * real_of_int s2\<bar> < 2 ^ 53"
proof -
  have a: "a_up u = push_all (CircularBuffer sz init) xs"
    and gW: "gamma_up u = gamma" "W_up u = of_int w"
    by (simp_all add: assms(1) Upsampler_push_all_fields Upsampler_new_def)
  from new_wf [OF assms(2), of init] obtain k where wf: "wf_cb k (CircularBuffer sz init)"
    by blast
  have shape: "wf_cb k (a_up u)" "N (a_up u) = of_nat (length xs)"
    unfolding a by (rule push_all_shape [OF wf])+
  define n where "n = int (length xs)"
  define c where "c = int (unat (size_cb (a_up u)))"
  have cc: "int (unat (size_cb (CircularBuffer sz init))) = c"
    by (simp add: c_def a size_push_all)
  have n: "0 \<le> n" "n < 2 ^ 40" using assms(3) by (simp_all add: n_def)
  from shape(1) have "k \<le> 31" by (simp add: wf_cb_def)
  then have "(2 :: int) ^ k \<le> 2 ^ 31" by (rule pow2_le_31)
  then have c: "0 < c" "c \<le> 2 ^ 31" by (simp_all add: c_def unat_size_cb [OF shape(1)])
  have "length xs < 2 ^ 63" using assms(3) by simp
  then have mx: "sint (maxn (a_up u)) = n - 1"
    unfolding n_def by (rule sint_maxn [OF shape(2)])
  have s1: "s1 = n - 1 - c + w" and s2: "s2 = n - 1 - 1 - w"
    unfolding s1_def s2_def cc n_def by (rule refl)+
  have t1: "int64_sub (n - 1) c = Some (n - 1 - c)" "\<bar>n - 1 - c\<bar> < 2 ^ 53"
    using n c by (simp_all add: int64_sub_def)
  have t2: "int64_sub (n - 1) 1 = Some (n - 1 - 1)" "\<bar>n - 1 - 1\<bar> < 2 ^ 53"
    using n by (simp_all add: int64_sub_def)
  have b1: "\<bar>s1\<bar> < 2 ^ 42" "\<bar>s1\<bar> < 2 ^ 53" using n c assms(4) by (simp_all add: s1)
  have b2: "\<bar>s2\<bar> < 2 ^ 42" "\<bar>s2\<bar> < 2 ^ 53" using n assms(4) by (simp_all add: s2)
  have "\<bar>real_of_int s1\<bar> < 2 ^ 53"
    using b1(2) by (metis of_int_abs of_int_less_numeral_power_cancel_iff)
  then have "fl (real_of_int s1) = Some (rnd (real_of_int s1))" by (rule fl_small)
  then have x1: "fl (real_of_int s1) = Some (real_of_int s1)"
    by (simp only: rnd_int [OF b1(2)])
  have q1: "real_of_int (n - 1 - c) + real_of_int w = real_of_int s1"
    by (simp add: s1)
  have f1: "fl (real_of_int (n - 1 - c) + real_of_int w) = Some (real_of_int s1)"
    by (simp only: q1 x1)
  have "\<bar>real_of_int s2\<bar> < 2 ^ 53"
    using b2(2) by (metis of_int_abs of_int_less_numeral_power_cancel_iff)
  then have "fl (real_of_int s2) = Some (rnd (real_of_int s2))" by (rule fl_small)
  then have x2: "fl (real_of_int s2) = Some (real_of_int s2)"
    by (simp only: rnd_int [OF b2(2)])
  have q2: "real_of_int (n - 1 - 1) - real_of_int w = real_of_int s2"
    by (simp add: s2)
  have f2: "fl (real_of_int (n - 1 - 1) - real_of_int w) = Some (real_of_int s2)"
    by (simp only: q2 x2)
  note p1 = product_rounded [OF assms(5) b1(1)]
  note p2 = product_rounded [OF assms(5) b2(1)]
  show "Upsampler_minn u = Some \<lceil>rnd (gamma * real_of_int s1)\<rceil>"
    unfolding Upsampler_minn_def mx gW c_def [symmetric]
    by (simp only: t1(1) double_of_int64_def rnd_int [OF t1(2)] f1 p1(1)
        int64_of_double_int [OF p1(2,3)] Option.bind.simps)
  show "Upsampler_maxn u = Some \<lfloor>rnd (gamma * real_of_int s2)\<rfloor>"
    unfolding Upsampler_maxn_def mx gW
    by (simp only: t2(1) double_of_int64_def rnd_int [OF t2(2)] f2 p2(1)
        int64_of_double_int [OF p2(4,5)] Option.bind.simps)
  show "gamma_up u *
      (real_of_int (sint (maxn (a_up u))) - real (unat (size_cb (a_up u))) + W_up u)
    = gamma * real_of_int s1"
    by (simp add: mx gW s1 c_def)
  show "gamma_up u * (real_of_int (sint (maxn (a_up u))) - 1 - W_up u)
    = gamma * real_of_int s2"
    by (simp add: mx gW s2)
  show "\<bar>gamma * real_of_int s1\<bar> < 2 ^ 53" by (rule p1(6))
  show "\<bar>gamma * real_of_int s2\<bar> < 2 ^ 53" by (rule p2(6))
qed







text \<open>
  \<^verbatim>\<open>maxn()\<close> does not read the size of the store: the second difference is there for
  every store that the constructor may request, and whatever the other fields hold.
\<close>

lemma Upsampler_maxn_rounding_any_store:
  assumes "unat sz < 2 ^ 31"
    "u = Upsampler_push_all (Upsampler_new (of_int 30) r
      (6004799503160661 / 4503599627370496) gmin gmax sz init g) (replicate 35 x)"
  shows "Upsampler_maxn u = Some 4"
    and "\<lfloor>gamma_up u * (real_of_int (sint (maxn (a_up u))) - 1 - W_up u)\<rfloor> = 3"
proof -
  have w: "\<bar>30 :: int\<bar> < 2 ^ 40"
    and g: "\<bar>6004799503160661 / 4503599627370496 :: real\<bar> \<le> 2 ^ 10"
    and l: "length (replicate 35 x) < 2 ^ 40" by simp_all
  note v = Upsampler_window_values [OF assms(2) assms(1) l w g]
  have s2: "int (length (replicate 35 x)) - 1 - 1 - 30 = 3" by simp
  from v(2) show "Upsampler_maxn u = Some 4"
    unfolding s2 rnd_four by simp
  show "\<lfloor>gamma_up u * (real_of_int (sint (maxn (a_up u))) - 1 - W_up u)\<rfloor> = 3"
    unfolding v(4) s2 by simp
qed

end
